theory Spec2Isabelle
  imports Main
begin

section \<open>Errors\<close>

text \<open>
  Every exception the modelled functions can raise is a value of this type: the
  \<open>ValueError\<close> that \<open>parse_config\<close> raises explicitly (with its message), and the
  \<open>KeyError\<close> / \<open>IndexError\<close> that a subscript \<open>d[k]\<close> or a \<open>pop(0)\<close> raises
  implicitly (with the key).
\<close>

datatype error = ValueError string | KeyError string | IndexError

section \<open>create_tokens_and_tags: BIO tagging of tokens from character spans\<close>

subsection \<open>Data\<close>

text \<open>
  A span is a dict decoded from an annotation result. The three keys the function reads
  are the fields; \<open>None\<close> stands for a key that is absent or holds Python's \<open>None\<close>
  (\<open>span.get(k)\<close> does not tell the two apart). Offsets are Python integers.
\<close>

record span =
  get_start :: "int option"
  get_end :: "int option"
  get_labels :: "string list option"

text \<open>
  The variables of the loop of \<open>create_tokens_and_tags\<close>: the sorted spans not yet
  popped, the current span with its two cached bounds, the BIO prefix, and the two
  output lists.
\<close>

record sweep =
  spans :: "span list"
  span :: span
  span_start :: int
  span_end :: int
  prefix :: string
  tokens :: "string list"
  tags :: "string list"

subsection \<open>Helpers of the Python runtime\<close>

text \<open>\<open>text[start:end]\<close> for two non-negative indices.\<close>

definition slice :: "string \<Rightarrow> nat \<Rightarrow> nat \<Rightarrow> string" where
  "slice text s e = take (e - s) (drop s text)"

text \<open>
  \<open>not span\<close>: a dict is falsy when it has no key. In the record model that is a span none
  of whose keys is set.
\<close>

definition not_span :: "span \<Rightarrow> bool" where
  "not_span s \<longleftrightarrow> get_start s = None \<and> get_end s = None \<and> get_labels s = None"

text \<open>\<open>not span.get('labels')\<close>: the labels are absent, \<open>None\<close> or the empty list.\<close>

definition not_labels :: "span \<Rightarrow> bool" where
  "not_labels s \<longleftrightarrow> (case get_labels s of None \<Rightarrow> True | Some ls \<Rightarrow> ls = [])"

text \<open>
  \<open>sorted(spans, key=itemgetter('start'))\<close>: the keys are taken first (a missing one
  raises), then the spans are sorted by key; the sort is stable, as \<open>sort_key\<close> is.
\<close>

definition sorted_by_start :: "span list \<Rightarrow> error + span list" where
  "sorted_by_start sps =
     (case those (map get_start sps) of
        None \<Rightarrow> Inl (KeyError ''start'')
      | Some keys \<Rightarrow> Inr (map snd (sort_key fst (zip keys sps))))"

subsection \<open>The sweep\<close>

text \<open>
  Lines 79 to 81 and 96 to 98: make \<open>s\<close> the current span, the spans after it the
  remaining ones. \<open>span['start']\<close> and \<open>span['end'] - 1\<close> raise when the value is missing.
\<close>

definition set_span :: "sweep \<Rightarrow> span \<Rightarrow> span list \<Rightarrow> error + sweep" where
  "set_span st s rest =
     (case get_start s of
        None \<Rightarrow> Inl (KeyError ''start'')
      | Some b \<Rightarrow>
          (case get_end s of
             None \<Rightarrow> Inl (KeyError ''end'')
           | Some e \<Rightarrow>
               Inr (st\<lparr>spans := rest, span := s, span_start := b, span_end := e - 1\<rparr>)))"

text \<open>
  The \<open>while spans:\<close> loop of lines 95 to 101, on the remaining spans \<open>sps\<close>: pop spans,
  resetting the prefix each time, until one ends at or after the token's start or none
  is left. When none is left the last span popped stays the current one.
\<close>

fun pop_spans :: "int \<Rightarrow> sweep \<Rightarrow> span list \<Rightarrow> error + sweep" where
  "pop_spans token_start st [] = Inr (st\<lparr>spans := []\<rparr>)"
| "pop_spans token_start st (s # rest) =
     (case set_span st s rest of
        Inl e \<Rightarrow> Inl e
      | Inr st' \<Rightarrow>
          (let st'' = st'\<lparr>prefix := ''B-''\<rparr>
           in if token_start \<le> span_end st'' then Inr st''
              else pop_spans token_start st'' rest))"

text \<open>Lines 94 to 101: the current span once the token at \<open>token_start\<close> is reached.\<close>

definition advance :: "sweep \<Rightarrow> int \<Rightarrow> error + sweep" where
  "advance st token_start =
     (if token_start > span_end st then pop_spans token_start st (spans st) else Inr st)"

text \<open>Lines 106 to 112: the tag of the token, and the prefix for the next one.\<close>

definition decide_tag :: "sweep \<Rightarrow> int \<Rightarrow> int \<Rightarrow> error + sweep" where
  "decide_tag st token_start token_end =
     (if not_span (span st) \<or> token_end < span_start st \<or> not_labels (span st)
      then Inr (st\<lparr>tags := tags st @ [''O'']\<rparr>)
      else if span_start st \<le> token_end \<and> span_end st \<ge> token_start
      then (case get_labels (span st) of
              None \<Rightarrow> Inl (KeyError ''labels'')
            | Some [] \<Rightarrow> Inl IndexError
            | Some (l # ls) \<Rightarrow> Inr (st\<lparr>tags := tags st @ [prefix st @ l], prefix := ''I-''\<rparr>))
      else Inr (st\<lparr>tags := tags st @ [''O'']\<rparr>))"

text \<open>Lines 86 to 88: the offset of the last character of a token \<open>(token, token_start)\<close>.\<close>

definition token_end :: "string \<times> int \<Rightarrow> int" where
  "token_end tk = snd tk + int (length (fst tk)) - 1"

text \<open>
  A span overlaps a token: the test of line 108 on the bounds of the span itself,
  \<open>start \<le> token_end\<close> and \<open>end - 1 \<ge> token_start\<close>.
\<close>

definition overlaps :: "span \<Rightarrow> string \<times> int \<Rightarrow> bool" where
  "overlaps s tk \<longleftrightarrow>
     (case get_start s of
        None \<Rightarrow> False
      | Some b \<Rightarrow>
          (case get_end s of
             None \<Rightarrow> False
           | Some e \<Rightarrow> b \<le> token_end tk \<and> e - 1 \<ge> snd tk))"

text \<open>
  A span ends before the offset \<open>t\<close>: the test of line 100, \<open>token_start \<le> span_end\<close>
  with \<open>span_end = end - 1\<close>, fails for it.
\<close>

definition ends_before :: "span \<Rightarrow> int \<Rightarrow> bool" where
  "ends_before s t \<longleftrightarrow> (case get_end s of None \<Rightarrow> False | Some e \<Rightarrow> e - 1 < t)"

text \<open>The body of the \<open>for\<close> loop of lines 84 to 112.\<close>

definition tag_token :: "sweep \<Rightarrow> string \<times> int \<Rightarrow> error + sweep" where
  "tag_token st tk =
     (case tk of (token, token_start) \<Rightarrow>
        (case advance (st\<lparr>tokens := tokens st @ [token]\<rparr>) token_start of
           Inl e \<Rightarrow> Inl e
         | Inr st' \<Rightarrow> decide_tag st' token_start (token_end tk)))"

fun sweep_tokens :: "sweep \<Rightarrow> (string \<times> int) list \<Rightarrow> error + sweep" where
  "sweep_tokens st [] = Inr st"
| "sweep_tokens st (tk # tks) =
     (case tag_token st tk of Inl e \<Rightarrow> Inl e | Inr st' \<Rightarrow> sweep_tokens st' tks)"

text \<open>Lines 78 to 83: sort the spans, pop the first one, start with prefix \<open>B-\<close>.\<close>

definition initial_sweep :: "span list \<Rightarrow> error + sweep" where
  "initial_sweep sps =
     (case sorted_by_start sps of
        Inl e \<Rightarrow> Inl e
      | Inr [] \<Rightarrow> Inl IndexError
      | Inr (s # rest) \<Rightarrow>
          set_span \<lparr>spans = rest, span = s, span_start = 0, span_end = 0,
                    prefix = ''B-'', tokens = [], tags = []\<rparr> s rest)"

text \<open>Line 71: the token texts cut out of the text, each with its start offset.\<close>

definition tokens_and_idx :: "string \<Rightarrow> (nat \<times> nat) list \<Rightarrow> (string \<times> int) list" where
  "tokens_and_idx text token_index_tuples =
     map (\<lambda>(s, e). (slice text s e, int s)) token_index_tuples"

text \<open>Lines 72 to 77: the spans are not empty and each has a start and an end.\<close>

definition spans_usable :: "span list \<Rightarrow> bool" where
  "spans_usable sps \<longleftrightarrow>
     sps \<noteq> [] \<and> list_all (\<lambda>s. get_start s \<noteq> None \<and> get_end s \<noteq> None) sps"

text \<open>
  \<open>create_tokens_and_tags\<close>. The tokenizer (\<open>TreebankWordTokenizer().span_tokenize\<close>,
  of another package) is the parameter \<open>span_tokenize\<close>: it gives the (start, end) offsets
  of the tokens of a text.
\<close>

definition create_tokens_and_tags ::
  "(string \<Rightarrow> (nat \<times> nat) list) \<Rightarrow> string \<Rightarrow> span list \<Rightarrow> error + (string list \<times> string list)"
where
  "create_tokens_and_tags span_tokenize text sps =
     (let tis = tokens_and_idx text (span_tokenize text)
      in if spans_usable sps
         then (case initial_sweep sps of
                 Inl e \<Rightarrow> Inl e
               | Inr st0 \<Rightarrow>
                   (case sweep_tokens st0 tis of
                      Inl e \<Rightarrow> Inl e
                    | Inr st \<Rightarrow> Inr (tokens st, tags st)))
         else Inr (map fst tis, replicate (length tis) ''O''))"

subsection \<open>The sweep seen from outside\<close>

text \<open>
  Two observers of a run, used to state what holds "when token \<open>i\<close> is visited":
  \<open>state_before\<close> is the state of the loop when the tokens before the \<open>i\<close>-th have been
  tagged, and \<open>current_at\<close> the state at line 102 of the \<open>i\<close>-th iteration, when the
  current span has been brought forward and the tag is about to be decided.
\<close>

definition state_before :: "span list \<Rightarrow> (string \<times> int) list \<Rightarrow> nat \<Rightarrow> error + sweep" where
  "state_before sps tis i =
     (case initial_sweep sps of Inl e \<Rightarrow> Inl e | Inr st0 \<Rightarrow> sweep_tokens st0 (take i tis))"

definition current_at :: "span list \<Rightarrow> (string \<times> int) list \<Rightarrow> nat \<Rightarrow> error + sweep" where
  "current_at sps tis i =
     (case state_before sps tis i of
        Inl e \<Rightarrow> Inl e
      | Inr st \<Rightarrow> advance (st\<lparr>tokens := tokens st @ [fst (tis ! i)]\<rparr>) (snd (tis ! i)))"

text \<open>
  The invariant of the loop, for the sorted span list \<open>ss\<close>: the current span is the element
  of \<open>ss\<close> just before the remaining ones, its cached bounds are its own, every span has
  both bounds, and the prefix is one of the two BIO prefixes.
\<close>

definition bounded :: "span \<Rightarrow> bool" where
  "bounded s \<longleftrightarrow> get_start s \<noteq> None \<and> get_end s \<noteq> None"

definition sweep_inv :: "span list \<Rightarrow> sweep \<Rightarrow> bool" where
  "sweep_inv ss st \<longleftrightarrow>
     list_all bounded ss \<and>
     Suc (length (spans st)) \<le> length ss \<and>
     span st = ss ! (length ss - Suc (length (spans st))) \<and>
     spans st = drop (length ss - length (spans st)) ss \<and>
     get_start (span st) = Some (span_start st) \<and>
     get_end (span st) = Some (span_end st + 1) \<and>
     (prefix st = ''B-'' \<or> prefix st = ''I-'')"

text \<open>
  What the sweep has left behind when it is at the offset \<open>t\<close>: every span before the
  current one ends before \<open>t\<close>.
\<close>

definition passed :: "span list \<Rightarrow> sweep \<Rightarrow> int \<Rightarrow> bool" where
  "passed ss st t \<longleftrightarrow>
     (\<forall>q < length ss - Suc (length (spans st)). ends_before (ss ! q) t)"

text \<open>
  A tokenizer for examples: it answers the given offsets, whatever the text.
\<close>

definition offsets_tokenizer :: "(nat \<times> nat) list \<Rightarrow> string \<Rightarrow> (nat \<times> nat) list" where
  "offsets_tokenizer offsets text = offsets"

section \<open>parse_config: from a label config to the structure of its control tags\<close>

subsection \<open>Data\<close>

text \<open>
  An element of the parsed config: its tag, its attributes in document order and its
  children. Comments and processing instructions have no attribute and no tag name, so
  the loop of \<open>parse_config\<close> passes over them; they are left out of the tree.
\<close>

type_synonym attrs = "(string \<times> string) list"

datatype node = Node (tag: string) (attrib: attrs) (children: "node list")

text \<open>
  The dicts that \<open>parse_config\<close> builds. A Python dict keeps its keys in insertion order,
  and \<open>list(d)\<close> reads them in that order, so a dict is an association list with distinct
  keys.
\<close>

record conditional =
  cond_type :: string
  cond_name :: string

record input_info =
  input_type :: string
  input_value :: string

text \<open>The \<open>tag_info\<close> of an output tag as the first loop leaves it.\<close>

record output_info =
  tag_type :: string
  to_name :: "string list"
  conditionals :: "conditional option"

text \<open>The \<open>tag_info\<close> as the second loop completes it.\<close>

record tag_info = output_info +
  tag_inputs :: "input_info list"
  tag_labels :: "string list"
  labels_attrs :: "(string \<times> attrs) list"

text \<open>What \<open>logger.debug\<close> is called with.\<close>

datatype diagnostic =
    NoValueOrAlias node
  | ToNameNotFound string string

text \<open>The variables of the first loop, and the log.\<close>

record parse_state =
  inputs :: "(string \<times> input_info) list"
  outputs :: "(string \<times> output_info) list"
  labels :: "(string \<times> (string \<times> attrs) list) list"
  log :: "diagnostic list"

subsection \<open>Helpers of the Python runtime\<close>

text \<open>\<open>d[k] = v\<close>: a new key goes to the end, a known key keeps its place.\<close>

fun dict_set :: "('k \<times> 'v) list \<Rightarrow> 'k \<Rightarrow> 'v \<Rightarrow> ('k \<times> 'v) list" where
  "dict_set [] k v = [(k, v)]"
| "dict_set ((k', v') # d) k v =
     (if k' = k then (k, v) # d else (k', v') # dict_set d k v)"

text \<open>\<open>d[k]\<close>, which raises \<open>KeyError\<close> for a missing key.\<close>

definition subscript :: "(string \<times> 'v) list \<Rightarrow> string \<Rightarrow> error + 'v" where
  "subscript d k = (case map_of d k of None \<Rightarrow> Inl (KeyError k) | Some v \<Rightarrow> Inr v)"

text \<open>\<open>d[k]\<close> for a \<open>defaultdict(dict)\<close>: a missing key reads as the empty dict.\<close>

definition default_get :: "(string \<times> ('k \<times> 'v) list) list \<Rightarrow> string \<Rightarrow> ('k \<times> 'v) list" where
  "default_get d k = (case map_of d k of None \<Rightarrow> [] | Some v \<Rightarrow> v)"

text \<open>\<open>tag.attrib.get(k)\<close>.\<close>

definition attrib_get :: "node \<Rightarrow> string \<Rightarrow> string option" where
  "attrib_get t k = map_of (attrib t) k"

text \<open>The truth value of \<open>tag.attrib.get(k)\<close>: the attribute is there and not empty.\<close>

definition truthy :: "string option \<Rightarrow> bool" where
  "truthy v \<longleftrightarrow> (case v of None \<Rightarrow> False | Some s \<Rightarrow> s \<noteq> [])"

text \<open>\<open>s.split(sep)\<close> for a separator of one character.\<close>

fun str_split :: "char \<Rightarrow> string \<Rightarrow> string list" where
  "str_split sep [] = [[]]"
| "str_split sep (c # cs) =
     (if c = sep then [] # str_split sep cs
      else (case str_split sep cs of [] \<Rightarrow> [[c]] | w # ws \<Rightarrow> (c # w) # ws))"

text \<open>\<open>s.lstrip(c)\<close> for one character.\<close>

definition lstrip :: "char \<Rightarrow> string \<Rightarrow> string" where
  "lstrip c s = dropWhile (\<lambda>x. x = c) s"

subsection \<open>The nested functions\<close>

definition LABEL_TAGS :: "string set" where
  "LABEL_TAGS = {''Label'', ''Choice''}"

definition NOT_CONTROL_TAGS :: "string set" where
  "NOT_CONTROL_TAGS = {''Filter''}"

definition is_input_tag :: "node \<Rightarrow> bool" where
  "is_input_tag t \<longleftrightarrow> truthy (attrib_get t ''name'') \<and> truthy (attrib_get t ''value'')"

definition is_output_tag :: "node \<Rightarrow> bool" where
  "is_output_tag t \<longleftrightarrow>
     truthy (attrib_get t ''name'') \<and> truthy (attrib_get t ''toName'') \<and>
     tag t \<notin> NOT_CONTROL_TAGS"

text \<open>
  \<open>_get_parent_output_tag_name\<close>, on the chain of parents of the tag, nearest first:
  the name of the first parent whose name is a key of \<open>outputs\<close>, if there is one.
\<close>

fun get_parent_output_tag_name :: "node list \<Rightarrow> (string \<times> 'v) list \<Rightarrow> string option" where
  "get_parent_output_tag_name [] outs = None"
| "get_parent_output_tag_name (parent # rest) outs =
     (case attrib_get parent ''name'' of
        None \<Rightarrow> get_parent_output_tag_name rest outs
      | Some name \<Rightarrow>
          if name \<in> set (map fst outs) then Some name
          else get_parent_output_tag_name rest outs)"

subsection \<open>The first loop\<close>

text \<open>
  \<open>xml_tree.iter()\<close>: the elements in document order, each with the chain that
  \<open>getparent()\<close> walks from it (nearest parent first).
\<close>

fun iter :: "node list \<Rightarrow> node \<Rightarrow> (node list \<times> node) list" where
  "iter parents (Node t a cs) =
     (parents, Node t a cs) # concat (map (iter (Node t a cs # parents)) cs)"

text \<open>Lines 272 to 285: the conditional rule of a per-region control tag.\<close>

definition conditionals_of :: "node \<Rightarrow> error + conditional option" where
  "conditionals_of t =
     (if attrib_get t ''perRegion'' = Some ''true'' then
        if truthy (attrib_get t ''whenTagName'') then
          (case subscript (attrib t) ''whenTagName'' of
             Inl e \<Rightarrow> Inl e
           | Inr v \<Rightarrow> Inr (Some \<lparr>cond_type = ''tag'', cond_name = v\<rparr>))
        else if truthy (attrib_get t ''whenLabelValue'') then
          (case subscript (attrib t) ''whenLabelValue'' of
             Inl e \<Rightarrow> Inl e
           | Inr v \<Rightarrow> Inr (Some \<lparr>cond_type = ''label'', cond_name = v\<rparr>))
        else if truthy (attrib_get t ''whenChoiceValue'') then
          (case subscript (attrib t) ''whenChoiceValue'' of
             Inl e \<Rightarrow> Inl e
           | Inr v \<Rightarrow> Inr (Some \<lparr>cond_type = ''choice'', cond_name = v\<rparr>))
        else Inr None
      else Inr None)"

text \<open>Lines 270 to 288: record an output tag.\<close>

definition record_output :: "node \<Rightarrow> parse_state \<Rightarrow> error + parse_state" where
  "record_output t st =
     (case subscript (attrib t) ''toName'' of
        Inl e \<Rightarrow> Inl e
      | Inr to \<Rightarrow>
          (case conditionals_of t of
             Inl e \<Rightarrow> Inl e
           | Inr cond \<Rightarrow>
               (case subscript (attrib t) ''name'' of
                  Inl e \<Rightarrow> Inl e
                | Inr name \<Rightarrow>
                    Inr (st\<lparr>outputs := dict_set (outputs st) name
                           \<lparr>tag_type = tag t, to_name = str_split CHR '','' to,
                            conditionals = cond\<rparr>\<rparr>))))"

text \<open>Lines 290 to 293: record an input tag.\<close>

definition record_input :: "node \<Rightarrow> parse_state \<Rightarrow> error + parse_state" where
  "record_input t st =
     (case subscript (attrib t) ''name'' of
        Inl e \<Rightarrow> Inl e
      | Inr name \<Rightarrow>
          (case subscript (attrib t) ''value'' of
             Inl e \<Rightarrow> Inl e
           | Inr v \<Rightarrow>
               Inr (st\<lparr>inputs := dict_set (inputs st) name
                      \<lparr>input_type = tag t, input_value = lstrip CHR ''$'' v\<rparr>\<rparr>)))"

text \<open>Lines 269 to 293: an output tag, else an input tag, else neither.\<close>

definition classify :: "node \<Rightarrow> parse_state \<Rightarrow> error + parse_state" where
  "classify t st =
     (if is_output_tag t then record_output t st
      else if is_input_tag t then record_input t st
      else Inr st)"

text \<open>Line 298: \<open>tag.attrib.get('alias') or tag.attrib.get('value')\<close>.\<close>

definition actual_value :: "node \<Rightarrow> string option" where
  "actual_value t =
     (if truthy (attrib_get t ''alias'') then attrib_get t ''alias''
      else attrib_get t ''value'')"

text \<open>
  Lines 296 to 306, for a tag among \<open>LABEL_TAGS\<close>: find the owning output tag and store
  the attributes of the label under its value.
\<close>

definition record_label :: "node list \<Rightarrow> node \<Rightarrow> parse_state \<Rightarrow> parse_state" where
  "record_label parents t st =
     (case get_parent_output_tag_name parents (outputs st) of
        None \<Rightarrow> st
      | Some parent_name \<Rightarrow>
          (if \<not> truthy (actual_value t) then st\<lparr>log := log st @ [NoValueOrAlias t]\<rparr>
           else (case actual_value t of
                   None \<Rightarrow> st
                 | Some v \<Rightarrow>
                     st\<lparr>labels := dict_set (labels st) parent_name
                          (dict_set (default_get (labels st) parent_name) v (attrib t))\<rparr>)))"

text \<open>The body of the loop of lines 268 to 306.\<close>

definition visit_tag :: "parse_state \<Rightarrow> node list \<times> node \<Rightarrow> error + parse_state" where
  "visit_tag st it =
     (case it of (parents, t) \<Rightarrow>
        (case classify t st of
           Inl e \<Rightarrow> Inl e
         | Inr st' \<Rightarrow>
             if tag t \<notin> LABEL_TAGS then Inr st' else Inr (record_label parents t st')))"

fun visit_all :: "parse_state \<Rightarrow> (node list \<times> node) list \<Rightarrow> error + parse_state" where
  "visit_all st [] = Inr st"
| "visit_all st (it # its) =
     (case visit_tag st it of Inl e \<Rightarrow> Inl e | Inr st' \<Rightarrow> visit_all st' its)"

text \<open>Line 267.\<close>

definition initial_state :: parse_state where
  "initial_state = \<lparr>inputs = [], outputs = [], labels = [], log = []\<rparr>"

definition first_loop :: "node \<Rightarrow> error + parse_state" where
  "first_loop xml_tree = visit_all initial_state (iter [] xml_tree)"

subsection \<open>The second loop\<close>

text \<open>
  Lines 309 to 316: the descriptors of the names of \<open>to_name\<close> that are input tags, and
  the diagnostics for those that are not.
\<close>

fun resolve_inputs ::
  "(string \<times> input_info) list \<Rightarrow> string \<Rightarrow> string list \<Rightarrow> error + (input_info list \<times> diagnostic list)"
where
  "resolve_inputs ins output_tag [] = Inr ([], [])"
| "resolve_inputs ins output_tag (input_tag_name # rest) =
     (if input_tag_name \<notin> set (map fst ins) then
        (case resolve_inputs ins output_tag rest of
           Inl e \<Rightarrow> Inl e
         | Inr (found, lg) \<Rightarrow> Inr (found, ToNameNotFound input_tag_name output_tag # lg))
      else
        (case subscript ins input_tag_name of
           Inl e \<Rightarrow> Inl e
         | Inr info \<Rightarrow>
             (case resolve_inputs ins output_tag rest of
                Inl e \<Rightarrow> Inl e
              | Inr (found, lg) \<Rightarrow> Inr (info # found, lg))))"

text \<open>Lines 307 to 318, over the items of \<open>outputs\<close>.\<close>

fun complete_outputs ::
  "parse_state \<Rightarrow> (string \<times> output_info) list \<Rightarrow> error + ((string \<times> tag_info) list \<times> diagnostic list)"
where
  "complete_outputs st [] = Inr ([], [])"
| "complete_outputs st ((output_tag, info) # rest) =
     (case resolve_inputs (inputs st) output_tag (to_name info) of
        Inl e \<Rightarrow> Inl e
      | Inr (found, lg) \<Rightarrow>
          (case complete_outputs st rest of
             Inl e \<Rightarrow> Inl e
           | Inr (done, lg') \<Rightarrow>
               Inr ((output_tag,
                     \<lparr>tag_type = tag_type info, to_name = to_name info,
                      conditionals = conditionals info, tag_inputs = found,
                      tag_labels = map fst (default_get (labels st) output_tag),
                      labels_attrs = default_get (labels st) output_tag\<rparr>) # done,
                    lg @ lg')))"

subsection \<open>parse_config\<close>

text \<open>
  Lines 267 to 319, on the parsed tree: the returned dict, with what was logged on the
  way.
\<close>

definition parse_tree :: "node \<Rightarrow> error + ((string \<times> tag_info) list \<times> diagnostic list)" where
  "parse_tree xml_tree =
     (case first_loop xml_tree of
        Inl e \<Rightarrow> Inl e
      | Inr st \<Rightarrow>
          (case complete_outputs st (outputs st) of
             Inl e \<Rightarrow> Inl e
           | Inr (schema, lg) \<Rightarrow> Inr (schema, log st @ lg)))"

text \<open>
  What \<open>etree.fromstring\<close> (of another package) can raise: an \<open>XMLSyntaxError\<close> with its
  message for a string that is not well-formed, or another exception; \<open>lxml\<close> raises a
  \<open>ValueError\<close> of its own for a \<open>str\<close> that carries an encoding declaration.
\<close>

datatype parser_failure = XMLSyntaxError string | OtherException error

text \<open>
  \<open>parse_config\<close>. The XML parser is the parameter \<open>fromstring\<close>: it gives the root of
  the tree, or what it raises. Lines 262 to 265 catch the \<open>XMLSyntaxError\<close> only, and
  raise a \<open>ValueError\<close> with its message; any other exception passes through. The config
  string may be \<open>None\<close>.
\<close>

definition parse_config ::
  "(string \<Rightarrow> parser_failure + node) \<Rightarrow> string option \<Rightarrow>
     error + ((string \<times> tag_info) list \<times> diagnostic list)"
where
  "parse_config fromstring config_string =
     (case config_string of
        None \<Rightarrow> Inr ([], [])
      | Some s \<Rightarrow>
          if s = [] then Inr ([], [])
          else (case fromstring s of
                  Inl (XMLSyntaxError msg) \<Rightarrow> Inl (ValueError msg)
                | Inl (OtherException e) \<Rightarrow> Inl e
                | Inr xml_tree \<Rightarrow> parse_tree xml_tree))"

text \<open>
  A parser for examples: it answers what the table gives for the string, and a syntax
  error for any other string.
\<close>

definition table_parser ::
  "(string \<times> (parser_failure + node)) list \<Rightarrow> string \<Rightarrow> parser_failure + node"
where
  "table_parser table s =
     (case map_of table s of None \<Rightarrow> Inl (XMLSyntaxError ''syntax error'') | Some r \<Rightarrow> r)"

subsection \<open>The parse seen from outside\<close>

text \<open>The elements of the tree, in document order.\<close>

definition elements :: "node \<Rightarrow> node list" where
  "elements xml_tree = map snd (iter [] xml_tree)"

text \<open>
  The assignment \<open>labels[parent_name][actual_value] = dict(tag.attrib)\<close> of line 306 that
  the visit of an element makes, if it makes one, as the triple of the owning output
  tag, the value of the label and its attributes; \<open>st\<close> is the state at line 294.
\<close>

definition label_entry :: "parse_state \<Rightarrow> node list \<times> node \<Rightarrow> (string \<times> string \<times> attrs) option" where
  "label_entry st it =
     (case it of (parents, t) \<Rightarrow>
        if tag t \<notin> LABEL_TAGS then None
        else (case get_parent_output_tag_name parents (outputs st) of
                None \<Rightarrow> None
              | Some parent_name \<Rightarrow>
                  (case actual_value t of
                     None \<Rightarrow> None
                   | Some v \<Rightarrow> if v = [] then None else Some (parent_name, v, attrib t))))"

text \<open>The assignments of line 306 that a run of the first loop makes, in order.\<close>

fun label_entries :: "parse_state \<Rightarrow> (node list \<times> node) list \<Rightarrow> (string \<times> string \<times> attrs) list" where
  "label_entries st [] = []"
| "label_entries st (it # its) =
     (case classify (snd it) st of
        Inl e \<Rightarrow> []
      | Inr st1 \<Rightarrow>
          (case label_entry st1 it of None \<Rightarrow> [] | Some w \<Rightarrow> [w]) @
          (case visit_tag st it of Inl e \<Rightarrow> [] | Inr st' \<Rightarrow> label_entries st' its))"

text \<open>The label values written under the output tag \<open>k\<close>, with their attributes, in order.\<close>

definition entries_under :: "string \<Rightarrow> (string \<times> string \<times> attrs) list \<Rightarrow> (string \<times> attrs) list" where
  "entries_under k ws = map snd (filter (\<lambda>w. fst w = k) ws)"

text \<open>A list without the repetitions of its elements: each stays where it is first seen.\<close>

fun first_seen :: "'a list \<Rightarrow> 'a list" where
  "first_seen [] = []"
| "first_seen (x # xs) = x # filter (\<lambda>y. y \<noteq> x) (first_seen xs)"

text \<open>The values that a dict holds for the keys of a list that it has, in the list's order.\<close>

fun lookups :: "('k \<times> 'v) list \<Rightarrow> 'k list \<Rightarrow> 'v list" where
  "lookups d [] = []"
| "lookups d (k # ks) =
     (case map_of d k of None \<Rightarrow> lookups d ks | Some v \<Rightarrow> v # lookups d ks)"

text \<open>One assignment of line 306 on the dict of one output tag.\<close>

definition upsert :: "string \<times> attrs \<Rightarrow> (string \<times> attrs) list \<Rightarrow> (string \<times> attrs) list" where
  "upsert w d = dict_set d (fst w) (snd w)"

text \<open>
  What the second loop makes of one item of \<open>outputs\<close>, in closed form: the completed
  \<open>tag_info\<close>, and the diagnostics for the names of \<open>to_name\<close> that are no input tag.
\<close>

definition completed :: "parse_state \<Rightarrow> string \<times> output_info \<Rightarrow> string \<times> tag_info" where
  "completed st e =
     (fst e, \<lparr>tag_type = tag_type (snd e), to_name = to_name (snd e),
              conditionals = conditionals (snd e),
              tag_inputs = lookups (inputs st) (to_name (snd e)),
              tag_labels = map fst (default_get (labels st) (fst e)),
              labels_attrs = default_get (labels st) (fst e)\<rparr>)"

definition not_found :: "parse_state \<Rightarrow> string \<times> output_info \<Rightarrow> diagnostic list" where
  "not_found st e =
     map (\<lambda>n. ToNameNotFound n (fst e))
       (filter (\<lambda>n. n \<notin> set (map fst (inputs st))) (to_name (snd e)))"

section \<open>Properties of create_tokens_and_tags\<close>

subsection \<open>What the inner loop and one iteration do\<close>

lemma sweep_inv_span_in: "sweep_inv ss st \<Longrightarrow> span st \<in> set ss"
  by (auto simp: sweep_inv_def)

lemma sweep_inv_not_empty: "sweep_inv ss st \<Longrightarrow> \<not> not_span (span st)"
  by (auto simp: sweep_inv_def not_span_def)

lemma pop_spans_result:
  assumes "sweep_inv ss st"
  shows "\<exists>st'. pop_spans t st (spans st) = Inr st' \<and> sweep_inv ss st' \<and>
           length (spans st') \<le> length (spans st) \<and>
           (spans st = [] \<longrightarrow> st' = st) \<and>
           (spans st \<noteq> [] \<longrightarrow> prefix st' = ''B-'' \<and> length (spans st') < length (spans st)) \<and>
           (t > span_end st \<and> (\<forall>s\<in>set (spans st). \<forall>e. get_end s = Some e \<longrightarrow> t > e - 1)
              \<longrightarrow> t > span_end st')"
  using assms
proof (induction "spans st" arbitrary: st)
  case Nil
  have "st\<lparr>spans := []\<rparr> = st\<lparr>spans := spans st\<rparr>" using Nil.hyps by simp
  then have eq: "st\<lparr>spans := []\<rparr> = st" by simp
  show ?case using Nil.prems Nil.hyps[symmetric]
    by (intro exI[of _ st]) (simp add: eq)
next
  case (Cons s rest)
  let ?k = "length ss - length (spans st)"
  from Cons.prems Cons.hyps(2)[symmetric] have k: "?k < length ss" "drop ?k ss = s # rest"
    by (auto simp: sweep_inv_def)
  then have s: "s = ss ! ?k" and rest: "rest = drop (Suc ?k) ss"
    by (metis Cons_nth_drop_Suc list.inject)+
  have "bounded s" using s k(1) Cons.prems by (auto simp: sweep_inv_def list_all_length)
  then obtain b e where be: "get_start s = Some b" "get_end s = Some e"
    by (auto simp: bounded_def)
  define st'' where "st'' = st\<lparr>spans := rest, span := s, span_start := b, span_end := e - 1, prefix := ''B-''\<rparr>"
  have le: "Suc (length (spans st)) \<le> length ss"
    using Cons.prems by (simp add: sweep_inv_def)
  have len: "length ss - Suc (length rest) = ?k" "length ss - length rest = Suc ?k"
    using le Cons.hyps(2)[symmetric] by auto
  have inv: "sweep_inv ss st''"
    using Cons.prems be s rest k(1) len
    unfolding sweep_inv_def st''_def by simp
  have unf: "pop_spans t st (spans st) = (if t \<le> e - 1 then Inr st'' else pop_spans t st'' rest)"
    using be Cons.hyps(2)[symmetric] by (simp add: set_span_def st''_def)
  show ?case
  proof (cases "t \<le> e - 1")
    case True
    then show ?thesis using unf inv Cons.hyps(2)[symmetric] be
      by (auto simp: st''_def)
  next
    case False
    have sp: "rest = spans st''" by (simp add: st''_def)
    from Cons.hyps(1)[OF sp inv]
    obtain st' where r: "pop_spans t st'' (spans st'') = Inr st'" "sweep_inv ss st'"
      "length (spans st') \<le> length (spans st'')"
      "spans st'' = [] \<longrightarrow> st' = st''"
      "spans st'' \<noteq> [] \<longrightarrow> prefix st' = ''B-'' \<and> length (spans st') < length (spans st'')"
      "t > span_end st'' \<and> (\<forall>s\<in>set (spans st''). \<forall>e. get_end s = Some e \<longrightarrow> t > e - 1)
              \<longrightarrow> t > span_end st'"
      by blast
    have p: "prefix st' = ''B-''" using r(4,5) by (cases "spans st'' = []") (auto simp: st''_def)
    have e: "span_end st'' = e - 1" by (simp add: st''_def)
    show ?thesis using False unf r p sp[symmetric] Cons.hyps(2)[symmetric] e
      by auto
  qed
qed

lemma pop_spans_keeps:
  "pop_spans t st sps = Inr st' \<Longrightarrow> tags st' = tags st \<and> tokens st' = tokens st"
proof (induction sps arbitrary: st)
  case Nil
  then show ?case by auto
next
  case (Cons s rest)
  then show ?case
    by (fastforce simp: set_span_def Let_def split: option.splits if_splits)
qed

lemma advance_keeps:
  "advance st t = Inr st' \<Longrightarrow> tags st' = tags st \<and> tokens st' = tokens st"
  by (auto simp: advance_def dest: pop_spans_keeps split: if_splits)

lemma decide_tag_keeps:
  "decide_tag st ts te = Inr st' \<Longrightarrow>
     (\<exists>tg. tags st' = tags st @ [tg]) \<and> tokens st' = tokens st \<and>
     spans st' = spans st \<and> span st' = span st \<and> span_start st' = span_start st \<and>
     span_end st' = span_end st \<and> (prefix st' = prefix st \<or> prefix st' = ''I-'')"
  by (auto simp: decide_tag_def split: if_splits option.splits list.splits)

lemma tag_token_keeps:
  "tag_token st tk = Inr st' \<Longrightarrow>
     (\<exists>tg. tags st' = tags st @ [tg]) \<and> tokens st' = tokens st @ [fst tk]"
  by (cases tk) (auto simp: tag_token_def Let_def split: sum.splits
        dest!: advance_keeps decide_tag_keeps)

lemma sweep_tokens_keeps:
  "sweep_tokens st tks = Inr st' \<Longrightarrow>
     (\<exists>tgs. tags st' = tags st @ tgs \<and> length tgs = length tks) \<and>
     tokens st' = tokens st @ map fst tks"
proof (induction tks arbitrary: st)
  case Nil
  then show ?case by simp
next
  case (Cons tk tks)
  then obtain st1 where s1: "tag_token st tk = Inr st1" "sweep_tokens st1 tks = Inr st'"
    by (auto split: sum.splits)
  from tag_token_keeps[OF s1(1)] obtain tg where
    t1: "tags st1 = tags st @ [tg]" "tokens st1 = tokens st @ [fst tk]" by blast
  from Cons.IH[OF s1(2)] obtain tgs where
    t2: "tags st' = tags st1 @ tgs" "length tgs = length tks" "tokens st' = tokens st1 @ map fst tks"
    by blast
  show ?case using t1 t2 by simp
qed

lemma sweep_tokens_append:
  "sweep_tokens st (xs @ ys) =
     (case sweep_tokens st xs of Inl e \<Rightarrow> Inl e | Inr st' \<Rightarrow> sweep_tokens st' ys)"
  by (induction xs arbitrary: st) (auto split: sum.splits)


lemma those_map_Some:
  "list_all (\<lambda>s. f s \<noteq> None) xs \<Longrightarrow> \<exists>ks. those (map f xs) = Some ks \<and> length ks = length xs"
  by (induction xs) auto

lemma sorted_by_start_result:
  assumes "list_all bounded sps"
  shows "\<exists>ss. sorted_by_start sps = Inr ss \<and> set ss = set sps \<and> length ss = length sps"
proof -
  from assms have "list_all (\<lambda>s. get_start s \<noteq> None) sps"
    by (simp add: list_all_iff bounded_def)
  then obtain ks where ks: "those (map get_start sps) = Some ks" "length ks = length sps"
    using those_map_Some by blast
  have "set (map snd (sort_key fst (zip ks sps))) = set (map snd (zip ks sps))"
    by simp
  also have "\<dots> = set sps" using ks(2) by (simp only: map_snd_zip)
  finally have "set (map snd (sort_key fst (zip ks sps))) = set sps" .
  then show ?thesis using ks by (simp add: sorted_by_start_def)
qed

lemma initial_sweep_result:
  assumes "spans_usable sps"
  shows "\<exists>ss st0. sorted_by_start sps = Inr ss \<and> set ss = set sps \<and> length ss = length sps \<and>
           initial_sweep sps = Inr st0 \<and> sweep_inv ss st0 \<and> prefix st0 = ''B-'' \<and>
           tokens st0 = [] \<and> tags st0 = [] \<and> Suc (length (spans st0)) = length sps"
proof -
  from assms have b: "list_all bounded sps" and ne: "sps \<noteq> []"
    by (auto simp: spans_usable_def bounded_def list_all_iff)
  from sorted_by_start_result[OF b] obtain ss where
    ss: "sorted_by_start sps = Inr ss" "set ss = set sps" "length ss = length sps" by blast
  from ss(3) ne obtain s rest where sr: "ss = s # rest" by (cases ss) auto
  have bs: "list_all bounded ss" using b ss(2) by (simp add: list_all_iff)
  then have "bounded s" using sr by simp
  then obtain b0 e0 where be: "get_start s = Some b0" "get_end s = Some e0"
    by (auto simp: bounded_def)
  define st0 where "st0 = \<lparr>spans = rest, span = s, span_start = b0, span_end = e0 - 1,
                    prefix = ''B-'', tokens = [], tags = []\<rparr>"
  have i: "initial_sweep sps = Inr st0"
    using ss(1) sr be by (simp add: initial_sweep_def set_span_def st0_def)
  have "sweep_inv ss st0"
    using bs sr be by (simp add: sweep_inv_def st0_def)
  then show ?thesis using ss i sr by (auto simp: st0_def)
qed

lemma advance_result:
  assumes "sweep_inv ss st"
  shows "\<exists>st'. advance st t = Inr st' \<and> sweep_inv ss st' \<and>
           length (spans st') \<le> length (spans st) \<and>
           (length (spans st') = length (spans st) \<longrightarrow> prefix st' = prefix st) \<and>
           (length (spans st') < length (spans st) \<longrightarrow> prefix st' = ''B-'') \<and>
           ((\<forall>s\<in>set ss. \<forall>e. get_end s = Some e \<longrightarrow> t > e - 1) \<longrightarrow> t > span_end st')"
proof (cases "t > span_end st")
  case False
  have "get_end (span st) = Some (span_end st + 1)" "span st \<in> set ss"
    using assms by (auto simp: sweep_inv_def)
  then have "\<not> (\<forall>s\<in>set ss. \<forall>e. get_end s = Some e \<longrightarrow> t > e - 1)"
    using False by fastforce
  then show ?thesis using False assms by (auto simp add: advance_def)
next
  case True
  from pop_spans_result[OF assms, of t]
  obtain st' where r: "pop_spans t st (spans st) = Inr st'" "sweep_inv ss st'"
     "length (spans st') \<le> length (spans st)"
     "spans st = [] \<longrightarrow> st' = st"
     "spans st \<noteq> [] \<longrightarrow> prefix st' = ''B-'' \<and> length (spans st') < length (spans st)"
     "t > span_end st \<and> (\<forall>s\<in>set (spans st). \<forall>e. get_end s = Some e \<longrightarrow> t > e - 1)
              \<longrightarrow> t > span_end st'"
    by blast
  have sub: "set (spans st) \<subseteq> set ss"
    using assms by (metis sweep_inv_def set_drop_subset)
  have "(\<forall>s\<in>set ss. \<forall>e. get_end s = Some e \<longrightarrow> t > e - 1) \<longrightarrow> t > span_end st'"
    using r(6) True sub by blast
  then have e: "(\<forall>s\<in>set ss. \<forall>e. get_end s = Some e \<longrightarrow> t > e - 1) \<longrightarrow> t > span_end st'" .
  have a: "advance st t = Inr st'" using True r(1) by (simp add: advance_def)
  have p: "length (spans st') = length (spans st) \<longrightarrow> prefix st' = prefix st"
    using r(4,5) by (cases "spans st = []") auto
  have q: "length (spans st') < length (spans st) \<longrightarrow> prefix st' = ''B-''"
    using r(5) by (cases "spans st = []") auto
  show ?thesis using a r(2,3) p q e by blast
qed

lemma decide_tag_result:
  "decide_tag st ts te = Inr (st\<lparr>tags := tags st @ [''O'']\<rparr>) \<and>
     (te < span_start st \<or> not_labels (span st) \<or> not_span (span st) \<or> span_end st < ts) \<or>
   (\<exists>l ls. get_labels (span st) = Some (l # ls) \<and>
      span_start st \<le> te \<and> span_end st \<ge> ts \<and>
      decide_tag st ts te = Inr (st\<lparr>tags := tags st @ [prefix st @ l], prefix := ''I-''\<rparr>))"
proof (cases "not_span (span st) \<or> te < span_start st \<or> not_labels (span st)")
  case True
  then show ?thesis by (auto simp add: decide_tag_def)
next
  case False
  then obtain l ls where l: "get_labels (span st) = Some (l # ls)"
    by (cases "get_labels (span st)"; cases "the (get_labels (span st))")
       (auto simp: not_labels_def)
  show ?thesis
  proof (cases "span_start st \<le> te \<and> span_end st \<ge> ts")
    case True
    with False l show ?thesis by (simp add: decide_tag_def)
  next
    case F2: False
    with False show ?thesis by (auto simp add: decide_tag_def)
  qed
qed

lemma decide_tag_inv:
  "sweep_inv ss st \<Longrightarrow> decide_tag st ts te = Inr st' \<Longrightarrow> sweep_inv ss st'"
proof -
  assume inv: "sweep_inv ss st" and d: "decide_tag st ts te = Inr st'"
  from decide_tag_keeps[OF d] have e: "spans st' = spans st" "span st' = span st"
    "span_start st' = span_start st" "span_end st' = span_end st"
    and p: "prefix st' = prefix st \<or> prefix st' = ''I-''" by auto
  from inv have "prefix st = ''B-'' \<or> prefix st = ''I-''" by (simp add: sweep_inv_def)
  with p have "prefix st' = ''B-'' \<or> prefix st' = ''I-''" by auto
  with inv show ?thesis unfolding sweep_inv_def e by blast
qed

lemma sweep_inv_tokens: "sweep_inv ss (st\<lparr>tokens := x\<rparr>) = sweep_inv ss st"
  by (simp add: sweep_inv_def)

lemma tag_token_unfold:
  "tag_token st tk =
     (case advance (st\<lparr>tokens := tokens st @ [fst tk]\<rparr>) (snd tk) of
        Inl e \<Rightarrow> Inl e
      | Inr st2 \<Rightarrow> decide_tag st2 (snd tk) (token_end tk))"
  by (cases tk) (simp add: tag_token_def split: sum.splits)

lemma tag_token_inv:
  assumes "sweep_inv ss st"
  shows "\<exists>st'. tag_token st tk = Inr st' \<and> sweep_inv ss st'"
proof -
  from advance_result[of ss "st\<lparr>tokens := tokens st @ [fst tk]\<rparr>" "snd tk"] assms
  obtain st2 where a: "advance (st\<lparr>tokens := tokens st @ [fst tk]\<rparr>) (snd tk) = Inr st2"
    "sweep_inv ss st2" by (auto simp: sweep_inv_tokens)
  from decide_tag_result[of st2 "snd tk" "token_end tk"]
  obtain st' where d: "decide_tag st2 (snd tk) (token_end tk) = Inr st'" by blast
  show ?thesis using a d decide_tag_inv[OF a(2) d] by (simp add: tag_token_unfold)
qed

lemma sweep_tokens_inv:
  "sweep_inv ss st \<Longrightarrow> \<exists>st'. sweep_tokens st tks = Inr st' \<and> sweep_inv ss st'"
proof (induction tks arbitrary: st)
  case Nil
  then show ?case by simp
next
  case (Cons tk tks)
  from tag_token_inv[OF Cons.prems, of tk] obtain st1 where
    "tag_token st tk = Inr st1" "sweep_inv ss st1" by blast
  with Cons.IH[of st1] show ?case by auto
qed

lemma state_before_total:
  assumes "spans_usable sps"
  shows "\<exists>ss st. sorted_by_start sps = Inr ss \<and> set ss = set sps \<and> length ss = length sps \<and>
           state_before sps tis i = Inr st \<and> sweep_inv ss st \<and>
           length (tags st) = min i (length tis) \<and> tokens st = map fst (take i tis)"
proof -
  from initial_sweep_result[OF assms] obtain ss st0 where
    i: "sorted_by_start sps = Inr ss" "set ss = set sps" "length ss = length sps"
       "initial_sweep sps = Inr st0" "sweep_inv ss st0" "tokens st0 = []" "tags st0 = []"
    by blast
  from sweep_tokens_inv[OF i(5), of "take i tis"] obtain st where
    s: "sweep_tokens st0 (take i tis) = Inr st" "sweep_inv ss st" by blast
  from sweep_tokens_keeps[OF s(1)] i(6,7)
  have "length (tags st) = min i (length tis)" "tokens st = map fst (take i tis)" by auto
  then show ?thesis using i s by (auto simp: state_before_def)
qed

lemma state_before_Suc:
  assumes "i < length tis"
  shows "state_before sps tis (Suc i) =
     (case state_before sps tis i of Inl e \<Rightarrow> Inl e | Inr st \<Rightarrow> tag_token st (tis ! i))"
  using assms
  by (auto simp: state_before_def take_Suc_conv_app_nth sweep_tokens_append split: sum.splits)

lemma state_before_mono:
  assumes "state_before sps tis i = Inr st" "state_before sps tis j = Inr st'" "i \<le> j"
  shows "take (length (tags st)) (tags st') = tags st"
proof -
  from assms(1) obtain st0 where i0: "initial_sweep sps = Inr st0"
    by (auto simp: state_before_def split: sum.splits)
  have "take j tis = take i tis @ drop i (take j tis)"
    using assms(3) by (metis append_take_drop_id min.absorb1 take_take)
  then have "sweep_tokens st0 (take j tis) =
     (case sweep_tokens st0 (take i tis) of Inl e \<Rightarrow> Inl e
      | Inr s \<Rightarrow> sweep_tokens s (drop i (take j tis)))"
    by (metis sweep_tokens_append)
  with assms(1,2) i0 have "sweep_tokens st (drop i (take j tis)) = Inr st'"
    by (simp add: state_before_def)
  from sweep_tokens_keeps[OF this] show ?thesis by auto
qed

lemma create_by_state:
  assumes "spans_usable sps" "tis = tokens_and_idx text (tk text)"
  shows "create_tokens_and_tags tk text sps =
     (case state_before sps tis (length tis) of
        Inl e \<Rightarrow> Inl e | Inr st \<Rightarrow> Inr (tokens st, tags st))"
  using assms by (simp add: create_tokens_and_tags_def state_before_def split: sum.splits)

subsection \<open>The run, token by token\<close>

text \<open>
  When the spans are usable the run never raises, and the \<open>i\<close>-th iteration is
  \<open>state_before i\<close>, then \<open>current_at i\<close>, then \<open>decide_tag\<close>, whose last tag is
  the \<open>i\<close>-th tag of the result.
\<close>

lemma visit:
  assumes "spans_usable sps" "tis = tokens_and_idx text (tk text)" "i < length tis"
  shows "\<exists>ss st cur nxt (fin::sweep).
     sorted_by_start sps = Inr ss \<and> set ss = set sps \<and> length ss = length sps \<and>
     state_before sps tis i = Inr st \<and> sweep_inv ss st \<and>
     current_at sps tis i = Inr cur \<and> sweep_inv ss cur \<and>
     length (spans cur) \<le> length (spans st) \<and>
     (length (spans cur) = length (spans st) \<longrightarrow> prefix cur = prefix st) \<and>
     (length (spans cur) < length (spans st) \<longrightarrow> prefix cur = ''B-'') \<and>
     ((\<forall>s\<in>set sps. \<forall>e. get_end s = Some e \<longrightarrow> snd (tis ! i) > e - 1)
         \<longrightarrow> snd (tis ! i) > span_end cur) \<and>
     decide_tag cur (snd (tis ! i)) (token_end (tis ! i)) = Inr nxt \<and>
     state_before sps tis (Suc i) = Inr nxt \<and>
     length (tags cur) = i \<and>
     create_tokens_and_tags tk text sps = Inr (tokens fin, tags fin) \<and>
     tokens fin = map fst tis \<and> length (tags fin) = length tis \<and>
     tags fin ! i = last (tags nxt) \<and>
     (\<forall>j<i. tags fin ! j = tags cur ! j)"
proof -
  from state_before_total[OF assms(1), of tis i] obtain ss st where
    a: "sorted_by_start sps = Inr ss" "set ss = set sps" "length ss = length sps"
       "state_before sps tis i = Inr st" "sweep_inv ss st" "length (tags st) = min i (length tis)"
    by blast
  from advance_result[of ss "st\<lparr>tokens := tokens st @ [fst (tis ! i)]\<rparr>" "snd (tis ! i)"] a(5)
  obtain cur where c: "advance (st\<lparr>tokens := tokens st @ [fst (tis ! i)]\<rparr>) (snd (tis ! i)) = Inr cur"
    "sweep_inv ss cur" "length (spans cur) \<le> length (spans st)"
    "length (spans cur) = length (spans st) \<longrightarrow> prefix cur = prefix st"
    "length (spans cur) < length (spans st) \<longrightarrow> prefix cur = ''B-''"
    "(\<forall>s\<in>set ss. \<forall>e. get_end s = Some e \<longrightarrow> snd (tis ! i) > e - 1) \<longrightarrow> snd (tis ! i) > span_end cur"
    by (auto simp: sweep_inv_tokens)
  have ca: "current_at sps tis i = Inr cur" using a(4) c(1) by (simp add: current_at_def)
  have tc: "tags cur = tags st" using advance_keeps[OF c(1)] by simp
  from decide_tag_result[of cur "snd (tis ! i)" "token_end (tis ! i)"]
  obtain nxt where d: "decide_tag cur (snd (tis ! i)) (token_end (tis ! i)) = Inr nxt" by blast
  have n: "state_before sps tis (Suc i) = Inr nxt"
    using assms(3) a(4) c(1) d by (simp add: state_before_Suc tag_token_unfold)
  from decide_tag_keeps[OF d] obtain tg where tg: "tags nxt = tags cur @ [tg]" by blast
  from state_before_total[OF assms(1), of tis "length tis"] obtain fin where
    f: "state_before sps tis (length tis) = Inr fin" "length (tags fin) = length tis"
       "tokens fin = map fst tis"
    by auto
  have cr: "create_tokens_and_tags tk text sps = Inr (tokens fin, tags fin)"
    using create_by_state[of sps tis "text" tk] assms(1,2) f(1) by simp
  have li: "length (tags cur) = i" using tc a(6) assms(3) by simp
  have "take (length (tags nxt)) (tags fin) = tags nxt"
    using state_before_mono[OF n f(1)] assms(3) by simp
  then have pre: "take (Suc i) (tags fin) = tags cur @ [tg]" using tg li by simp
  have "tags fin ! i = (take (Suc i) (tags fin)) ! i" by simp
  also have "\<dots> = tg" using pre li by (simp add: nth_append)
  finally have fi: "tags fin ! i = last (tags nxt)" using tg by simp
  have fj: "\<forall>j<i. tags fin ! j = tags cur ! j"
  proof (intro allI impI)
    fix j assume "j < i"
    then have "tags fin ! j = (take (Suc i) (tags fin)) ! j" by simp
    also have "\<dots> = tags cur ! j" using pre li \<open>j < i\<close> by (simp add: nth_append)
    finally show "tags fin ! j = tags cur ! j" .
  qed
  show ?thesis
    by (rule exI[of _ ss], rule exI[of _ st], rule exI[of _ cur], rule exI[of _ nxt],
        rule exI[of _ fin])
       (use a(1-5) c(2-6) ca d n li cr f(2,3) fi fj in simp)
qed

lemma labels_tag_ne_O:
  "sweep_inv ss st \<Longrightarrow> prefix st @ l \<noteq> ''O''"
  by (auto simp: sweep_inv_def)

lemma past_all_spans_O:
  assumes "spans_usable sps" and "tis = tokens_and_idx text (tk text)" and "i < length tis"
      and "\<forall>s\<in>set sps. \<forall>e. get_end s = Some e \<longrightarrow> snd (tis ! i) > e - 1"
      and "create_tokens_and_tags tk text sps = Inr (toks, tgs)"
  shows "tgs ! i = ''O''"
proof -
  from visit[of sps tis "text" tk i, OF assms(1-3)] assms(4,5) obtain cur nxt and fin :: sweep where
    v: "snd (tis ! i) > span_end cur"
       "decide_tag cur (snd (tis ! i)) (token_end (tis ! i)) = Inr nxt"
       "tgs = tags fin" "tags fin ! i = last (tags nxt)"
    by auto
  from decide_tag_result[of cur "snd (tis ! i)" "token_end (tis ! i)"] v(1,2)
  have "nxt = cur\<lparr>tags := tags cur @ [''O'']\<rparr>" by auto
  then show ?thesis using v(3,4) by simp
qed

lemma history:
  assumes u: "spans_usable sps" and t: "tis = tokens_and_idx text (tk text)"
      and c: "create_tokens_and_tags tk text sps = Inr (toks, tgs)"
  shows "i \<le> length tis \<Longrightarrow> state_before sps tis i = Inr st \<Longrightarrow>
         (\<forall>j<i. \<forall>cj. current_at sps tis j = Inr cj \<longrightarrow> length (spans st) \<le> length (spans cj)) \<and>
         prefix st = (if \<exists>j<i. tgs ! j \<noteq> ''O'' \<and> (\<exists>cj. current_at sps tis j = Inr cj \<and>
                            length (spans cj) = length (spans st))
                      then ''I-'' else ''B-'')"
proof (induction i arbitrary: st)
  case 0
  from initial_sweep_result[OF u] obtain st0 where
    "initial_sweep sps = Inr st0" "prefix st0 = ''B-''" by blast
  with 0 show ?case by (simp add: state_before_def)
next
  case (Suc i)
  then have il: "i < length tis" by simp
  from visit[of sps tis "text" tk i, OF u t il] c Suc.prems(2)
  obtain ss st0 cur and fin :: sweep where
    v: "state_before sps tis i = Inr st0" "current_at sps tis i = Inr cur" "sweep_inv ss cur"
       "length (spans cur) \<le> length (spans st0)"
       "length (spans cur) = length (spans st0) \<longrightarrow> prefix cur = prefix st0"
       "length (spans cur) < length (spans st0) \<longrightarrow> prefix cur = ''B-''"
       "decide_tag cur (snd (tis ! i)) (token_end (tis ! i)) = Inr st"
       "tgs ! i = last (tags st)"
    by auto
  from Suc.IH[OF _ v(1)] il have
    ih1: "\<forall>j<i. \<forall>cj. current_at sps tis j = Inr cj \<longrightarrow> length (spans st0) \<le> length (spans cj)"
    and ih2: "prefix st0 = (if \<exists>j<i. tgs ! j \<noteq> ''O'' \<and> (\<exists>cj. current_at sps tis j = Inr cj \<and>
                            length (spans cj) = length (spans st0))
                      then ''I-'' else ''B-'')"
    by auto
  have sp: "spans st = spans cur" using decide_tag_keeps[OF v(7)] by simp
  have a: "\<forall>j<Suc i. \<forall>cj. current_at sps tis j = Inr cj \<longrightarrow> length (spans st) \<le> length (spans cj)"
  proof (intro allI impI)
    fix j cj assume j: "j < Suc i" "current_at sps tis j = Inr cj"
    show "length (spans st) \<le> length (spans cj)"
    proof (cases "j = i")
      case True
      then show ?thesis using j(2) v(2) sp by simp
    next
      case False
      then have "j < i" using j(1) by simp
      then show ?thesis using ih1 j(2) v(4) sp by fastforce
    qed
  qed
  let ?P = "\<lambda>n k. \<exists>j<n. tgs ! j \<noteq> ''O'' \<and> (\<exists>cj. current_at sps tis j = Inr cj \<and> length (spans cj) = k)"
  have pc: "prefix cur = (if ?P i (length (spans cur)) then ''I-'' else ''B-'')"
  proof (cases "length (spans cur) = length (spans st0)")
    case True
    then show ?thesis using v(5) ih2 by simp
  next
    case False
    then have lt: "length (spans cur) < length (spans st0)" using v(4) by simp
    have "\<not> ?P i (length (spans cur))" using ih1 lt by fastforce
    then show ?thesis using v(6) lt by simp
  qed
  from decide_tag_result[of cur "snd (tis ! i)" "token_end (tis ! i)"] v(7)
  consider (O) "st = cur\<lparr>tags := tags cur @ [''O'']\<rparr>"
    | (T) l where "st = cur\<lparr>tags := tags cur @ [prefix cur @ l], prefix := ''I-''\<rparr>"
    by auto
  then have b: "prefix st = (if ?P (Suc i) (length (spans st)) then ''I-'' else ''B-'')"
  proof cases
    case O
    then have ti: "tgs ! i = ''O''" using v(8) by simp
    have "?P (Suc i) (length (spans cur)) = ?P i (length (spans cur))"
      using ti less_Suc_eq by auto
    then show ?thesis using O pc sp by simp
  next
    case (T l)
    then have "tgs ! i = prefix cur @ l" using v(8) by simp
    then have "tgs ! i \<noteq> ''O''" using labels_tag_ne_O[OF v(3)] by simp
    then have "?P (Suc i) (length (spans cur))" using v(2) by blast
    then show ?thesis using T sp by simp
  qed
  show ?case using a b by blast
qed

lemma prefix_at:
  assumes u: "spans_usable sps" and t: "tis = tokens_and_idx text (tk text)"
      and c: "create_tokens_and_tags tk text sps = Inr (toks, tgs)"
      and il: "i < length tis" and ca: "current_at sps tis i = Inr cur"
  shows "prefix cur = (if \<exists>j<i. tgs ! j \<noteq> ''O'' \<and> (\<exists>cj. current_at sps tis j = Inr cj \<and>
                            length (spans cj) = length (spans cur))
                      then ''I-'' else ''B-'')"
proof -
  from visit[of sps tis "text" tk i, OF u t il] ca
  obtain st0 where
    v: "state_before sps tis i = Inr st0"
       "length (spans cur) \<le> length (spans st0)"
       "length (spans cur) = length (spans st0) \<longrightarrow> prefix cur = prefix st0"
       "length (spans cur) < length (spans st0) \<longrightarrow> prefix cur = ''B-''"
    by auto
  from history[OF u t c _ v(1)] il have
    ih1: "\<forall>j<i. \<forall>cj. current_at sps tis j = Inr cj \<longrightarrow> length (spans st0) \<le> length (spans cj)"
    and ih2: "prefix st0 = (if \<exists>j<i. tgs ! j \<noteq> ''O'' \<and> (\<exists>cj. current_at sps tis j = Inr cj \<and>
                            length (spans cj) = length (spans st0))
                      then ''I-'' else ''B-'')"
    by auto
  show ?thesis
  proof (cases "length (spans cur) = length (spans st0)")
    case True
    then show ?thesis using v(3) ih2 by simp
  next
    case False
    then have lt: "length (spans cur) < length (spans st0)" using v(2) by simp
    have "\<not> (\<exists>j<i. tgs ! j \<noteq> ''O'' \<and> (\<exists>cj. current_at sps tis j = Inr cj \<and>
                            length (spans cj) = length (spans cur)))" using ih1 lt by fastforce
    then show ?thesis using v(4) lt by simp
  qed
qed

subsection \<open>The sweep over tokens in ascending order\<close>

text \<open>
  The tag of a token is decided by the current span alone. When the tokens come in
  ascending order of their start, the spans before the current one all end before the
  token, so the current span is the first span of the sorted list that does not.
\<close>

lemma overlaps_current:
  "sweep_inv ss st \<Longrightarrow>
     overlaps (span st) tk \<longleftrightarrow> span_start st \<le> token_end tk \<and> snd tk \<le> span_end st"
  by (auto simp: sweep_inv_def overlaps_def)

lemma ends_before_current:
  "sweep_inv ss st \<Longrightarrow> ends_before (span st) t \<longleftrightarrow> span_end st < t"
  by (auto simp: sweep_inv_def ends_before_def)

lemma tag_by_current_span:
  assumes u: "spans_usable sps" and t: "tis = tokens_and_idx text (tk text)"
      and ss: "sorted_by_start sps = Inr ss"
      and c: "create_tokens_and_tags tk text sps = Inr (toks, tgs)"
      and il: "i < length tis"
  shows "\<exists>cur. current_at sps tis i = Inr cur \<and> sweep_inv ss cur \<and>
           (if overlaps (span cur) (tis ! i) \<and> \<not> not_labels (span cur)
            then \<exists>l ls. get_labels (span cur) = Some (l # ls) \<and>
                   tgs ! i =
                     (if \<exists>j<i. tgs ! j \<noteq> ''O'' \<and>
                            (\<exists>cj. current_at sps tis j = Inr cj \<and>
                                  length (spans cj) = length (spans cur))
                      then ''I-'' else ''B-'') @ l
            else tgs ! i = ''O'')"
proof -
  from visit[of sps tis "text" tk i, OF u t il]
  obtain ss' cur nxt and fin' :: sweep where
    v': "sorted_by_start sps = Inr ss'" "current_at sps tis i = Inr cur" "sweep_inv ss' cur"
       "decide_tag cur (snd (tis ! i)) (token_end (tis ! i)) = Inr nxt"
       "create_tokens_and_tags tk text sps = Inr (tokens fin', tags fin')"
       "tags fin' ! i = last (tags nxt)"
    by blast
  have v: "current_at sps tis i = Inr cur" "sweep_inv ss cur"
       "decide_tag cur (snd (tis ! i)) (token_end (tis ! i)) = Inr nxt"
       "tgs ! i = last (tags nxt)"
    using v' ss c by auto
  note ov = overlaps_current[OF v(2), of "tis ! i"]
  from decide_tag_result[of cur "snd (tis ! i)" "token_end (tis ! i)"] v(3)
  consider (O) "nxt = cur\<lparr>tags := tags cur @ [''O'']\<rparr>"
       "token_end (tis ! i) < span_start cur \<or> not_labels (span cur) \<or>
        not_span (span cur) \<or> span_end cur < snd (tis ! i)"
    | (T) l ls where "get_labels (span cur) = Some (l # ls)"
         "nxt = cur\<lparr>tags := tags cur @ [prefix cur @ l], prefix := ''I-''\<rparr>"
         "span_start cur \<le> token_end (tis ! i)" "snd (tis ! i) \<le> span_end cur"
    by auto
  then show ?thesis
  proof cases
    case O
    have "\<not> not_span (span cur)" using v(2) by (rule sweep_inv_not_empty)
    with O(2) ov have "\<not> (overlaps (span cur) (tis ! i) \<and> \<not> not_labels (span cur))"
      by auto
    moreover have "tgs ! i = ''O''" using O(1) v(4) by simp
    ultimately show ?thesis using v(1,2) by auto
  next
    case (T l ls)
    then have tg: "tgs ! i = prefix cur @ l" using v(4) by simp
    have cond: "overlaps (span cur) (tis ! i) \<and> \<not> not_labels (span cur)"
      using T(1,3,4) ov by (simp add: not_labels_def)
    from prefix_at[OF u t c il v(1)] tg T(1) cond v(1,2) show ?thesis by auto
  qed
qed

lemma sorted_by_start_sorted:
  assumes "sorted_by_start sps = Inr ss"
  shows "\<exists>ks. map get_start ss = map Some ks \<and> sorted ks"
proof -
  from assms obtain keys where k: "those (map get_start sps) = Some keys"
    and ss: "ss = map snd (sort_key fst (zip keys sps))"
    by (auto simp: sorted_by_start_def split: option.splits)
  have those_eq: "those xs = Some ys \<Longrightarrow> xs = map Some ys" for xs :: "int option list" and ys
    by (induction xs arbitrary: ys) (auto split: option.splits)
  from those_eq[OF k] have m: "map get_start sps = map Some keys" .
  then have len: "length keys = length sps" by (metis length_map)
  have pairs: "\<forall>p\<in>set (zip keys sps). get_start (snd p) = Some (fst p)"
  proof
    fix p assume "p \<in> set (zip keys sps)"
    then obtain n where n: "n < length keys" "n < length sps" "p = (keys ! n, sps ! n)"
      by (auto simp: set_zip)
    have "map get_start sps ! n = map Some keys ! n" using m by simp
    then show "get_start (snd p) = Some (fst p)" using n by simp
  qed
  let ?zs = "sort_key fst (zip keys sps)"
  have "\<forall>p\<in>set ?zs. get_start (snd p) = Some (fst p)" using pairs by simp
  then have "map get_start (map snd ?zs) = map Some (map fst ?zs)" by simp
  moreover have "sorted (map fst ?zs)" by (rule sorted_sort_key)
  ultimately show ?thesis using ss by blast
qed

lemma filter_sorted_by_start:
  assumes "sorted_by_start sps = Inr ss" "filter P sps = [s]"
  shows "filter P ss = [s]"
proof -
  from assms(1) obtain keys where k: "those (map get_start sps) = Some keys"
    and ss: "ss = map snd (sort_key fst (zip keys sps))"
    by (auto simp: sorted_by_start_def split: option.splits)
  have those_len: "those xs = Some ys \<Longrightarrow> length ys = length xs"
    for xs :: "int option list" and ys
    by (induction xs arbitrary: ys) (auto split: option.splits)
  from those_len[OF k] have len: "length keys = length sps" by simp
  let ?zs = "zip keys sps"
  have "map snd (filter (P \<circ> snd) ?zs) = filter P (map snd ?zs)" by (simp add: filter_map)
  also have "\<dots> = [s]" using len assms(2) by simp
  finally have one: "map snd (filter (P \<circ> snd) ?zs) = [s]" .
  then obtain z where z: "filter (P \<circ> snd) ?zs = [z]" "snd z = s" by auto
  have "filter P ss = map snd (filter (P \<circ> snd) (sort_key fst ?zs))"
    unfolding ss by (simp add: filter_map)
  also have "\<dots> = map snd (sort_key fst (filter (P \<circ> snd) ?zs))"
    by (simp add: filter_sort)
  also have "\<dots> = [s]" using z by simp
  finally show ?thesis .
qed

lemma filter_single_index:
  "filter P xs = [s] \<Longrightarrow> i < length xs \<Longrightarrow> j < length xs \<Longrightarrow> P (xs ! i) \<Longrightarrow> P (xs ! j)
     \<Longrightarrow> i = j"
proof (induction xs arbitrary: i j)
  case Nil
  then show ?case by simp
next
  case (Cons x xs)
  show ?case
  proof (cases "P x")
    case True
    with Cons.prems(1) have "filter P xs = []" by simp
    then have none: "\<forall>y\<in>set xs. \<not> P y" by (simp add: filter_empty_conv)
    have "i = 0" using Cons.prems(2,4) none by (cases i) auto
    moreover have "j = 0" using Cons.prems(3,5) none by (cases j) auto
    ultimately show ?thesis by simp
  next
    case False
    with Cons.prems(1) have f: "filter P xs = [s]" by simp
    from False Cons.prems(4) obtain i' where i: "i = Suc i'" by (cases i) auto
    from False Cons.prems(5) obtain j' where j: "j = Suc j'" by (cases j) auto
    from Cons.IH[OF f, of i' j'] Cons.prems i j show ?thesis by simp
  qed
qed

lemma passed_mono: "passed ss st t \<Longrightarrow> t \<le> t' \<Longrightarrow> passed ss st t'"
  by (fastforce simp: passed_def ends_before_def split: option.splits)

lemma passed_spans: "spans st' = spans st \<Longrightarrow> passed ss st' t = passed ss st t"
  by (simp add: passed_def)

lemma pop_spans_passed:
  assumes "sweep_inv ss st" "span_end st < t" "passed ss st t"
  shows "\<exists>st'. pop_spans t st (spans st) = Inr st' \<and> sweep_inv ss st' \<and> passed ss st' t \<and>
           (t \<le> span_end st' \<or> (\<forall>q<length ss. ends_before (ss ! q) t))"
  using assms
proof (induction "spans st" arbitrary: st)
  case Nil
  have "st\<lparr>spans := []\<rparr> = st\<lparr>spans := spans st\<rparr>" using Nil.hyps by simp
  then have eq: "st\<lparr>spans := []\<rparr> = st" by simp
  have p: "pop_spans t st (spans st) = Inr st" using Nil.hyps[symmetric] by (simp add: eq)
  have n: "length ss - Suc (length (spans st)) = length ss - 1" "0 < length ss"
    "span st = ss ! (length ss - 1)"
    using Nil.prems(1) Nil.hyps[symmetric] by (auto simp: sweep_inv_def)
  have cur: "ends_before (ss ! (length ss - 1)) t"
    using ends_before_current[OF Nil.prems(1), of t] Nil.prems(2) n(3) by simp
  have "\<forall>q<length ss. ends_before (ss ! q) t"
  proof (intro allI impI)
    fix q assume q: "q < length ss"
    show "ends_before (ss ! q) t"
    proof (cases "q = length ss - 1")
      case True
      then show ?thesis using cur by simp
    next
      case False
      then have "q < length ss - 1" using q by simp
      then show ?thesis using Nil.prems(3) n(1) by (simp add: passed_def)
    qed
  qed
  then show ?case using p Nil.prems(1,3) by blast
next
  case (Cons s rest)
  let ?k = "length ss - length (spans st)"
  have le: "Suc (length (spans st)) \<le> length ss"
    using Cons.prems(1) by (simp add: sweep_inv_def)
  from Cons.prems(1) Cons.hyps(2)[symmetric] have k: "?k < length ss" "drop ?k ss = s # rest"
    by (auto simp: sweep_inv_def)
  then have s: "s = ss ! ?k" and rest: "rest = drop (Suc ?k) ss"
    by (metis Cons_nth_drop_Suc list.inject)+
  have "bounded s" using s k(1) Cons.prems(1) by (auto simp: sweep_inv_def list_all_length)
  then obtain b e where be: "get_start s = Some b" "get_end s = Some e"
    by (auto simp: bounded_def)
  define st'' where
    "st'' = st\<lparr>spans := rest, span := s, span_start := b, span_end := e - 1, prefix := ''B-''\<rparr>"
  have len: "length ss - Suc (length rest) = ?k" "length ss - length rest = Suc ?k"
    using le Cons.hyps(2)[symmetric] by auto
  have inv: "sweep_inv ss st''"
    using Cons.prems(1) be s rest k(1) len
    unfolding sweep_inv_def st''_def by simp
  have unf: "pop_spans t st (spans st) = (if t \<le> e - 1 then Inr st'' else pop_spans t st'' rest)"
    using be Cons.hyps(2)[symmetric] by (simp add: set_span_def st''_def)
  have pos: "?k = Suc (length ss - Suc (length (spans st)))" using le by simp
  have cur: "ends_before (ss ! (length ss - Suc (length (spans st)))) t"
    using ends_before_current[OF Cons.prems(1), of t] Cons.prems(1,2)
    by (simp add: sweep_inv_def)
  have ps: "passed ss st'' t"
    unfolding passed_def
  proof (intro allI impI)
    fix q assume "q < length ss - Suc (length (spans st''))"
    then have q: "q < Suc (length ss - Suc (length (spans st)))"
      using len(1) pos by (simp add: st''_def)
    show "ends_before (ss ! q) t"
    proof (cases "q = length ss - Suc (length (spans st))")
      case True
      then show ?thesis using cur by simp
    next
      case False
      then have "q < length ss - Suc (length (spans st))" using q by simp
      then show ?thesis using Cons.prems(3) by (simp add: passed_def)
    qed
  qed
  show ?case
  proof (cases "t \<le> e - 1")
    case True
    have "span_end st'' = e - 1" by (simp add: st''_def)
    then show ?thesis using True unf ps inv by auto
  next
    case False
    have sp: "rest = spans st''" by (simp add: st''_def)
    have lt: "span_end st'' < t" using False by (simp add: st''_def)
    from Cons.hyps(1)[OF sp inv lt ps] show ?thesis using False unf sp by auto
  qed
qed

lemma advance_passed:
  assumes "sweep_inv ss st" "passed ss st t"
  shows "\<exists>st'. advance st t = Inr st' \<and> sweep_inv ss st' \<and> passed ss st' t \<and>
           (t \<le> span_end st' \<or> (\<forall>q<length ss. ends_before (ss ! q) t))"
proof (cases "t > span_end st")
  case True
  from pop_spans_passed[OF assms(1) True assms(2)] True show ?thesis
    by (simp add: advance_def)
next
  case False
  then show ?thesis using assms by (simp add: advance_def)
qed

lemma passed_tokens: "passed ss (st\<lparr>tokens := x\<rparr>) t = passed ss st t"
  by (simp add: passed_def)

lemma run_passed:
  assumes u: "spans_usable sps" and t: "tis = tokens_and_idx text (tk text)"
      and ss: "sorted_by_start sps = Inr ss" and srt: "sorted (map snd tis)"
  shows "i \<le> length tis \<Longrightarrow> state_before sps tis i = Inr st \<Longrightarrow>
         (\<forall>t. (\<forall>j<i. snd (tis ! j) \<le> t) \<longrightarrow> passed ss st t)"
proof (induction i arbitrary: st)
  case 0
  from initial_sweep_result[OF u] ss obtain st0 where
    i: "initial_sweep sps = Inr st0" "Suc (length (spans st0)) = length sps"
       "length ss = length sps"
    by auto
  with 0 have "st = st0" by (simp add: state_before_def)
  then show ?case using i by (simp add: passed_def)
next
  case (Suc i)
  then have il: "i < length tis" by simp
  from visit[of sps tis "text" tk i, OF u t il] ss Suc.prems(2)
  obtain st0 cur where
    v: "state_before sps tis i = Inr st0" "sweep_inv ss st0" "current_at sps tis i = Inr cur"
       "decide_tag cur (snd (tis ! i)) (token_end (tis ! i)) = Inr st"
    by auto
  have le: "\<forall>j<i. snd (tis ! j) \<le> snd (tis ! i)"
  proof (intro allI impI)
    fix j assume j: "j < i"
    have "map snd tis ! j \<le> map snd tis ! i"
      using srt j il by (simp add: sorted_iff_nth_mono del: nth_map)
    then show "snd (tis ! j) \<le> snd (tis ! i)" using j il by simp
  qed
  from Suc.IH[OF _ v(1)] il le have p0: "passed ss st0 (snd (tis ! i))" by simp
  have a: "advance (st0\<lparr>tokens := tokens st0 @ [fst (tis ! i)]\<rparr>) (snd (tis ! i)) = Inr cur"
    using v(1,3) by (simp add: current_at_def)
  from advance_passed[of ss "st0\<lparr>tokens := tokens st0 @ [fst (tis ! i)]\<rparr>" "snd (tis ! i)"]
       v(2) p0 a
  have pc: "passed ss cur (snd (tis ! i))" by (simp add: sweep_inv_tokens passed_tokens)
  have "spans st = spans cur" using decide_tag_keeps[OF v(4)] by simp
  then have ps: "passed ss st (snd (tis ! i))" using pc by (simp add: passed_def)
  show ?case
  proof (intro allI impI)
    fix t assume "\<forall>j<Suc i. snd (tis ! j) \<le> t"
    then have "snd (tis ! i) \<le> t" by simp
    then show "passed ss st t" using ps passed_mono by blast
  qed
qed

lemma at_token:
  assumes u: "spans_usable sps" and t: "tis = tokens_and_idx text (tk text)"
      and ss: "sorted_by_start sps = Inr ss" and srt: "sorted (map snd tis)"
      and il: "i < length tis"
  shows "\<exists>cur. current_at sps tis i = Inr cur \<and> sweep_inv ss cur \<and>
           passed ss cur (snd (tis ! i)) \<and>
           (snd (tis ! i) \<le> span_end cur \<or>
            (\<forall>q<length ss. ends_before (ss ! q) (snd (tis ! i))))"
proof -
  from visit[of sps tis "text" tk i, OF u t il] ss
  obtain st0 cur where
    v: "state_before sps tis i = Inr st0" "sweep_inv ss st0" "current_at sps tis i = Inr cur"
    by auto
  have le: "\<forall>j<i. snd (tis ! j) \<le> snd (tis ! i)"
  proof (intro allI impI)
    fix j assume j: "j < i"
    have "map snd tis ! j \<le> map snd tis ! i"
      using srt j il by (simp add: sorted_iff_nth_mono del: nth_map)
    then show "snd (tis ! j) \<le> snd (tis ! i)" using j il by simp
  qed
  from run_passed[of sps tis "text" tk ss i st0, OF u t ss srt _ v(1)] il le have p0: "passed ss st0 (snd (tis ! i))" by simp
  have a: "advance (st0\<lparr>tokens := tokens st0 @ [fst (tis ! i)]\<rparr>) (snd (tis ! i)) = Inr cur"
    using v(1,3) by (simp add: current_at_def)
  from advance_passed[of ss "st0\<lparr>tokens := tokens st0 @ [fst (tis ! i)]\<rparr>" "snd (tis ! i)"]
       v(2) p0 a
  show ?thesis using v(3) by (simp add: sweep_inv_tokens passed_tokens)
qed

lemma reached:
  assumes "sweep_inv ss cur" "passed ss cur t"
      and "t \<le> span_end cur \<or> (\<forall>q<length ss. ends_before (ss ! q) t)"
  shows "dropWhile (\<lambda>s. ends_before s t) ss =
           (if t \<le> span_end cur then span cur # spans cur else [])"
proof (cases "t \<le> span_end cur")
  case True
  let ?p = "length ss - Suc (length (spans cur))"
  have le: "Suc (length (spans cur)) \<le> length ss"
    using assms(1) unfolding sweep_inv_def by blast
  have sc: "span cur = ss ! ?p"
    using assms(1) unfolding sweep_inv_def by blast
  have sp: "spans cur = drop (length ss - length (spans cur)) ss"
    using assms(1) unfolding sweep_inv_def by blast
  have e: "length ss - length (spans cur) = Suc ?p" using le by simp
  have sp': "spans cur = drop (Suc ?p) ss" using sp unfolding e .
  have pl: "?p < length ss" using le by simp
  have "take ?p ss @ ss ! ?p # drop (Suc ?p) ss = ss" using pl by (rule id_take_nth_drop[symmetric])
  then have d: "take ?p ss @ span cur # spans cur = ss"
    using sc sp' by simp
  have pre: "\<forall>x\<in>set (take ?p ss). ends_before x t"
  proof
    fix x assume "x \<in> set (take ?p ss)"
    then obtain n where n: "n < length (take ?p ss)" "x = take ?p ss ! n"
      by (auto simp: in_set_conv_nth)
    then have "n < ?p" "x = ss ! n" by auto
    then show "ends_before x t" using assms(2) by (simp add: passed_def)
  qed
  have nb: "\<not> ends_before (span cur) t"
    using ends_before_current[OF assms(1), of t] True by simp
  have "dropWhile (\<lambda>s. ends_before s t) (take ?p ss @ span cur # spans cur) =
          span cur # spans cur"
    using pre nb by (simp add: dropWhile_append3)
  then show ?thesis using True unfolding d by simp
next
  case False
  with assms(3) have all: "\<forall>q<length ss. ends_before (ss ! q) t" by simp
  have "\<forall>x\<in>set ss. ends_before x t"
  proof
    fix x assume "x \<in> set ss"
    then obtain n where "n < length ss" "x = ss ! n" by (auto simp: in_set_conv_nth)
    then show "ends_before x t" using all by simp
  qed
  then show ?thesis using False by simp
qed

lemma same_position:
  assumes "sweep_inv ss a" "sweep_inv ss b"
  shows "span a # spans a = span b # spans b \<longleftrightarrow> length (spans a) = length (spans b)"
proof
  assume "span a # spans a = span b # spans b"
  then show "length (spans a) = length (spans b)" by simp
next
  assume l: "length (spans a) = length (spans b)"
  have a: "span a = ss ! (length ss - Suc (length (spans a)))"
          "spans a = drop (length ss - length (spans a)) ss"
    using assms(1) unfolding sweep_inv_def by blast+
  have b: "span b = ss ! (length ss - Suc (length (spans b)))"
          "spans b = drop (length ss - length (spans b)) ss"
    using assms(2) unfolding sweep_inv_def by blast+
  have "span a = span b" using a(1) b(1) l by simp
  moreover have "spans a = spans b" using a(2) b(2) l by metis
  ultimately show "span a # spans a = span b # spans b" by simp
qed

lemma tag_by_reached:
  assumes u: "spans_usable sps" and t: "tis = tokens_and_idx text (tk text)"
      and ss: "sorted_by_start sps = Inr ss"
      and c: "create_tokens_and_tags tk text sps = Inr (toks, tgs)"
      and srt: "sorted (map snd tis)" and il: "i < length tis"
  shows "case dropWhile (\<lambda>s. ends_before s (snd (tis ! i))) ss of
           [] \<Rightarrow> tgs ! i = ''O''
         | s # rest \<Rightarrow>
             if overlaps s (tis ! i) \<and> \<not> not_labels s
             then \<exists>l ls. get_labels s = Some (l # ls) \<and>
                    tgs ! i =
                      (if \<exists>j<i. tgs ! j \<noteq> ''O'' \<and>
                             dropWhile (\<lambda>s. ends_before s (snd (tis ! j))) ss = s # rest
                       then ''I-'' else ''B-'') @ l
             else tgs ! i = ''O''"
proof -
  from tag_by_current_span[OF u t ss c il] obtain cur where
    cur: "current_at sps tis i = Inr cur" "sweep_inv ss cur"
         "if overlaps (span cur) (tis ! i) \<and> \<not> not_labels (span cur)
          then \<exists>l ls. get_labels (span cur) = Some (l # ls) \<and>
                 tgs ! i =
                   (if \<exists>j<i. tgs ! j \<noteq> ''O'' \<and>
                          (\<exists>cj. current_at sps tis j = Inr cj \<and>
                                length (spans cj) = length (spans cur))
                    then ''I-'' else ''B-'') @ l
          else tgs ! i = ''O''"
    by blast
  from at_token[of sps tis "text" tk ss i, OF u t ss srt il] cur(1) have
    at: "passed ss cur (snd (tis ! i))"
        "snd (tis ! i) \<le> span_end cur \<or> (\<forall>q<length ss. ends_before (ss ! q) (snd (tis ! i)))"
    by auto
  note r = reached[OF cur(2) at]
  show ?thesis
  proof (cases "snd (tis ! i) \<le> span_end cur")
    case False
    then have d: "dropWhile (\<lambda>s. ends_before s (snd (tis ! i))) ss = []" using r by simp
    have "\<not> overlaps (span cur) (tis ! i)" using overlaps_current[OF cur(2)] False by simp
    then have "tgs ! i = ''O''" using cur(3) by simp
    then show ?thesis by (simp only: d list.case)
  next
    case True
    then have d: "dropWhile (\<lambda>s. ends_before s (snd (tis ! i))) ss = span cur # spans cur"
      using r by simp
    have one: "(\<exists>cj. current_at sps tis j = Inr cj \<and> length (spans cj) = length (spans cur)) \<longleftrightarrow>
               dropWhile (\<lambda>s. ends_before s (snd (tis ! j))) ss = span cur # spans cur"
      if j: "j < i" "tgs ! j \<noteq> ''O''" for j
    proof -
      have jl: "j < length tis" using j il by simp
      from tag_by_current_span[OF u t ss c jl] obtain cj where
        cj: "current_at sps tis j = Inr cj" "sweep_inv ss cj"
            "\<not> (overlaps (span cj) (tis ! j) \<and> \<not> not_labels (span cj)) \<longrightarrow> tgs ! j = ''O''"
        by (auto split: if_splits)
      have "overlaps (span cj) (tis ! j)" using cj(3) j(2) by blast
      then have tj: "snd (tis ! j) \<le> span_end cj" using overlaps_current[OF cj(2)] by simp
      from at_token[of sps tis "text" tk ss j, OF u t ss srt jl] cj(1) have
        atj: "passed ss cj (snd (tis ! j))"
             "snd (tis ! j) \<le> span_end cj \<or>
              (\<forall>q<length ss. ends_before (ss ! q) (snd (tis ! j)))"
        by auto
      from reached[OF cj(2) atj] tj
      have dj: "dropWhile (\<lambda>s. ends_before s (snd (tis ! j))) ss = span cj # spans cj" by simp
      show ?thesis using cj(1) dj same_position[OF cj(2) cur(2)] by auto
    qed
    have eq: "(\<exists>j<i. tgs ! j \<noteq> ''O'' \<and>
                 (\<exists>cj. current_at sps tis j = Inr cj \<and> length (spans cj) = length (spans cur))) \<longleftrightarrow>
              (\<exists>j<i. tgs ! j \<noteq> ''O'' \<and>
                 dropWhile (\<lambda>s. ends_before s (snd (tis ! j))) ss = span cur # spans cur)"
      using one by blast
    note c3 = cur(3)[unfolded eq]
    show ?thesis using c3 by (simp only: d list.case)
  qed
qed

lemma first_unshared:
  assumes b: "list_all bounded ss" and k: "map get_start ss = map Some ks" "sorted ks"
      and f: "filter (\<lambda>x. overlaps x tok) ss = [s]"
  shows "\<exists>us vs. ss = us @ s # vs \<and> s \<notin> set us \<and> s \<notin> set vs \<and>
           dropWhile (\<lambda>x. ends_before x (snd tok)) ss = s # vs"
proof -
  from f obtain us vs where d: "ss = us @ s # vs" "\<forall>u\<in>set us. \<not> overlaps u tok"
      "overlaps s tok" "filter (\<lambda>x. overlaps x tok) vs = []"
    by (auto simp: filter_eq_Cons_iff)
  have nv: "s \<notin> set vs" using d(3,4) by (auto simp: filter_empty_conv)
  have nu: "s \<notin> set us" using d(2,3) by auto
  obtain bs es where s: "get_start s = Some bs" "get_end s = Some es"
      "bs \<le> token_end tok" "es - 1 \<ge> snd tok"
    using d(3) by (auto simp: overlaps_def split: option.splits)
  have len: "length ks = length ss" using k(1) by (metis length_map)
  have st: "get_start (ss ! n) = Some (ks ! n)" if "n < length ss" for n
  proof -
    have "map get_start ss ! n = map Some ks ! n" using k(1) by simp
    then show ?thesis using that len by simp
  qed
  have lu: "length us < length ss" using d(1) by simp
  have sa: "ss ! length us = s" using d(1) by simp
  have ks: "ks ! length us = bs" using st[OF lu] sa s(1) by simp
  have eb: "ends_before u (snd tok)" if "u \<in> set us" for u
  proof -
    from that obtain a where a: "a < length us" "u = us ! a" by (auto simp: in_set_conv_nth)
    have ua: "ss ! a = u" using a d(1) by (simp add: nth_append)
    have "ks ! a \<le> ks ! length us"
      using k(2) a(1) lu len by (simp add: sorted_iff_nth_mono)
    moreover have "get_start u = Some (ks ! a)" using st[of a] ua a(1) lu by simp
    ultimately have su: "\<exists>bu. get_start u = Some bu \<and> bu \<le> token_end tok"
      using ks s(3) by simp
    have "bounded u" using b that d(1) by (auto simp: list_all_iff)
    then obtain eu where eu: "get_end u = Some eu" by (auto simp: bounded_def)
    have "\<not> overlaps u tok" using d(2) that by simp
    then have "eu - 1 < snd tok" using su eu by (auto simp: overlaps_def)
    then show ?thesis using eu by (simp add: ends_before_def)
  qed
  have ns: "\<not> ends_before s (snd tok)" using s by (simp add: ends_before_def)
  have "dropWhile (\<lambda>x. ends_before x (snd tok)) (us @ s # vs) = s # vs"
    using eb ns by (simp add: dropWhile_append3)
  then have "dropWhile (\<lambda>x. ends_before x (snd tok)) ss = s # vs" unfolding d(1) .
  then show ?thesis using d(1) nu nv by blast
qed

lemma unshared_same:
  assumes b: "list_all bounded ss" and k: "map get_start ss = map Some ks" "sorted ks"
      and fi: "filter (\<lambda>x. overlaps x toki) ss = [s]"
      and fj: "filter (\<lambda>x. overlaps x tokj) ss = [s]"
  shows "\<exists>rest. dropWhile (\<lambda>x. ends_before x (snd toki)) ss = s # rest \<and>
                dropWhile (\<lambda>x. ends_before x (snd tokj)) ss = s # rest"
proof -
  from first_unshared[OF b k fi] obtain us vs where
    i: "ss = us @ s # vs" "s \<notin> set us" "s \<notin> set vs"
       "dropWhile (\<lambda>x. ends_before x (snd toki)) ss = s # vs" by blast
  from first_unshared[OF b k fj] obtain us' vs' where
    j: "ss = us' @ s # vs'"
       "dropWhile (\<lambda>x. ends_before x (snd tokj)) ss = s # vs'" by blast
  have "us @ s # vs = us' @ s # vs'" using i(1) j(1) by simp
  then have "vs = vs'" using i(2,3) by (simp add: append_Cons_eq_iff)
  then show ?thesis using i(4) j(2) by simp
qed

lemmas sweep_eval =
  create_tokens_and_tags_def tokens_and_idx_def slice_def spans_usable_def initial_sweep_def
  sorted_by_start_def set_span_def tag_token_def advance_def decide_tag_def token_end_def
  not_span_def not_labels_def offsets_tokenizer_def state_before_def current_at_def

subsection \<open>The claims on tagging\<close>

text \<open>
  Claim C5. When the span list is empty, or a span in it has no start or no end, the
  function does not raise: it returns the token texts that the tokenizer's offsets cut
  out of the text, and as many tags, all \<open>O\<close>.
\<close>

theorem fallback_all_O:
  assumes "sps = [] \<or> (\<exists>s\<in>set sps. get_start s = None \<or> get_end s = None)"
  shows "create_tokens_and_tags tk text sps =
           Inr (map (\<lambda>(s, e). slice text s e) (tk text), replicate (length (tk text)) ''O'')"
proof -
  have "\<not> spans_usable sps" using assms by (auto simp: spans_usable_def list_all_iff)
  then show ?thesis
    by (simp add: create_tokens_and_tags_def tokens_and_idx_def comp_def case_prod_unfold)
qed

theorem fallback_all_O_witness:
  "create_tokens_and_tags (offsets_tokenizer [(0, 5), (6, 11)]) ''hello world'' [] =
     Inr ([''hello'', ''world''], [''O'', ''O'']) \<and>
   create_tokens_and_tags (offsets_tokenizer [(0, 5), (6, 11)]) ''hello world''
      [\<lparr>get_start = Some 0, get_end = None, get_labels = Some [''X'']\<rparr>] =
     Inr ([''hello'', ''world''], [''O'', ''O''])"
proof -
  have h1: "([]::span list) = [] \<or>
            (\<exists>s\<in>set ([]::span list). get_start s = None \<or> get_end s = None)"
    by simp
  have h2: "[\<lparr>get_start = Some 0, get_end = None, get_labels = Some [''X'']\<rparr>] = [] \<or>
            (\<exists>s\<in>set [\<lparr>get_start = Some 0, get_end = None, get_labels = Some [''X'']\<rparr>].
                get_start s = None \<or> get_end s = None)"
    by simp
  show ?thesis
    using fallback_all_O[OF h1, of "offsets_tokenizer [(0, 5), (6, 11)]" "''hello world''"]
          fallback_all_O[OF h2, of "offsets_tokenizer [(0, 5), (6, 11)]" "''hello world''"]
    by (simp add: slice_def offsets_tokenizer_def)
qed

text \<open>
  Claim C1. Take the \<open>i\<close>-th token of a run on usable spans, and the span \<open>cur\<close> that is
  current when its tag is decided, with bounds \<open>b\<close> and \<open>e\<close> (\<open>e\<close> exclusive) and first
  label \<open>l\<close>. If \<open>b \<le> token_end\<close> and \<open>e - 1 \<ge> token_start\<close> the tag of the token is the
  prefix followed by \<open>l\<close>. With \<open>e = token_start + 1\<close> the span covers the first character
  of the token only, and the token is tagged all the same (the example that follows the
  theorem is such a span).
\<close>

theorem overlap_tags_token:
  assumes "spans_usable sps" and "tis = tokens_and_idx text (tk text)" and "i < length tis"
      and "current_at sps tis i = Inr cur"
      and "get_start (span cur) = Some b" and "get_end (span cur) = Some e"
      and "get_labels (span cur) = Some (l # ls)"
      and "b \<le> token_end (tis ! i)" and "e - 1 \<ge> snd (tis ! i)"
  shows "\<exists>toks tgs. create_tokens_and_tags tk text sps = Inr (toks, tgs) \<and>
           length tgs = length tis \<and> tgs ! i = prefix cur @ l \<and>
           (prefix cur = ''B-'' \<or> prefix cur = ''I-'') \<and>
           span_start cur = b \<and> span_end cur = e - 1"
proof -
  from visit[of sps tis "text" tk i, OF assms(1-3)] assms(4) obtain ss nxt and fin :: sweep where
    v: "sweep_inv ss cur"
       "decide_tag cur (snd (tis ! i)) (token_end (tis ! i)) = Inr nxt"
       "create_tokens_and_tags tk text sps = Inr (tokens fin, tags fin)"
       "length (tags fin) = length tis" "tags fin ! i = last (tags nxt)"
    by auto
  have se: "span_start cur = b" "span_end cur = e - 1"
    using v(1) assms(5,6) by (auto simp: sweep_inv_def)
  have nl: "\<not> not_labels (span cur)" "\<not> not_span (span cur)"
    using assms(5,7) by (auto simp: not_labels_def not_span_def)
  from decide_tag_result[of cur "snd (tis ! i)" "token_end (tis ! i)"] se nl assms(7-9) v(2)
  have "nxt = cur\<lparr>tags := tags cur @ [prefix cur @ l], prefix := ''I-''\<rparr>"
    by auto
  then have "tags fin ! i = prefix cur @ l" using v(5) by simp
  moreover have "prefix cur = ''B-'' \<or> prefix cur = ''I-''"
    using v(1) by (simp add: sweep_inv_def)
  ultimately show ?thesis using v(3,4) se by blast
qed

theorem overlap_tags_token_witness:
  "spans_usable [\<lparr>get_start = Some 0, get_end = Some 1, get_labels = Some [''PER'']\<rparr>] \<and>
   current_at [\<lparr>get_start = Some 0, get_end = Some 1, get_labels = Some [''PER'']\<rparr>]
      (tokens_and_idx ''John lives'' [(0, 4), (5, 10)]) 0 =
     Inr \<lparr>spans = [], span = \<lparr>get_start = Some 0, get_end = Some 1, get_labels = Some [''PER'']\<rparr>,
          span_start = 0, span_end = 0, prefix = ''B-'', tokens = [''John''], tags = []\<rparr> \<and>
   create_tokens_and_tags (offsets_tokenizer [(0, 4), (5, 10)]) ''John lives''
      [\<lparr>get_start = Some 0, get_end = Some 1, get_labels = Some [''PER'']\<rparr>] =
     Inr ([''John'', ''lives''], [''B-PER'', ''O''])"
proof -
  let ?sps = "[\<lparr>get_start = Some 0, get_end = Some 1, get_labels = Some [''PER'']\<rparr>]"
  let ?tk = "offsets_tokenizer [(0, 4), (5, 10)]"
  let ?tis = "tokens_and_idx ''John lives'' [(0, 4), (5, 10)]"
  let ?cur = "\<lparr>spans = [], span = \<lparr>get_start = Some 0, get_end = Some 1, get_labels = Some [''PER'']\<rparr>,
          span_start = 0, span_end = 0, prefix = ''B-'', tokens = [''John''], tags = []\<rparr>"
  have h1: "spans_usable ?sps" by (simp add: spans_usable_def)
  have h2: "?tis = tokens_and_idx ''John lives'' (?tk ''John lives'')"
    by (simp add: offsets_tokenizer_def)
  have h3: "0 < length ?tis" by (simp add: tokens_and_idx_def)
  have h4: "current_at ?sps ?tis 0 = Inr ?cur" by (simp add: sweep_eval)
  have h5: "get_start (span ?cur) = Some 0" by simp
  have h6: "get_end (span ?cur) = Some (snd (?tis ! 0) + 1)" by (simp add: tokens_and_idx_def)
  have h7: "get_labels (span ?cur) = Some [''PER'']" by simp
  have h8: "0 \<le> token_end (?tis ! 0)" by (simp add: sweep_eval)
  have h9: "snd (?tis ! 0) + 1 - 1 \<ge> snd (?tis ! 0)" by simp
  from overlap_tags_token[of ?sps ?tis "''John lives''" ?tk 0 ?cur 0 "snd (?tis ! 0) + 1"
         "''PER''" "[]", OF h1 h2 h3 h4 h5 h6 h7 h8 h9]
  have "\<exists>toks tgs. create_tokens_and_tags ?tk ''John lives'' ?sps = Inr (toks, tgs) \<and>
          tgs ! 0 = prefix ?cur @ ''PER''"
    by blast
  then show ?thesis using h1 h4 by (simp add: sweep_eval)
qed

text \<open>
  Claim C7. A token that starts after \<open>end - 1\<close> of every span of the batch is tagged
  \<open>O\<close>, and so is every later token that starts no earlier than it (as all later tokens
  do when the tokenizer gives them in ascending order).
\<close>

theorem tokens_past_all_spans_are_O:
  assumes "spans_usable sps" and "tis = tokens_and_idx text (tk text)" and "i < length tis"
      and "\<forall>s\<in>set sps. \<forall>e. get_end s = Some e \<longrightarrow> snd (tis ! i) > e - 1"
  shows "\<exists>toks tgs. create_tokens_and_tags tk text sps = Inr (toks, tgs) \<and>
           length tgs = length tis \<and> tgs ! i = ''O'' \<and>
           (\<forall>j. i \<le> j \<and> j < length tis \<and> snd (tis ! i) \<le> snd (tis ! j) \<longrightarrow> tgs ! j = ''O'')"
proof -
  from visit[of sps tis "text" tk i, OF assms(1-3)] obtain fin :: sweep where
    c: "create_tokens_and_tags tk text sps = Inr (tokens fin, tags fin)"
       "length (tags fin) = length tis" by blast
  have i: "tags fin ! i = ''O''"
    using past_all_spans_O[of sps tis "text" tk i, OF assms c(1)] .
  have "tags fin ! j = ''O''" if j: "i \<le> j" "j < length tis" "snd (tis ! i) \<le> snd (tis ! j)" for j
  proof -
    have "\<forall>s\<in>set sps. \<forall>e. get_end s = Some e \<longrightarrow> snd (tis ! j) > e - 1"
      using assms(4) j(3) by fastforce
    from past_all_spans_O[of sps tis "text" tk j, OF assms(1,2) j(2) this c(1)] show ?thesis .
  qed
  then show ?thesis using c i by blast
qed

theorem tokens_past_all_spans_are_O_witness:
  "spans_usable [\<lparr>get_start = Some 0, get_end = Some 4, get_labels = Some [''PER'']\<rparr>] \<and>
   create_tokens_and_tags (offsets_tokenizer [(0, 4), (5, 10), (11, 15)]) ''John lives here''
      [\<lparr>get_start = Some 0, get_end = Some 4, get_labels = Some [''PER'']\<rparr>] =
     Inr ([''John'', ''lives'', ''here''], [''B-PER'', ''O'', ''O''])"
proof -
  let ?sps = "[\<lparr>get_start = Some 0, get_end = Some 4, get_labels = Some [''PER'']\<rparr>]"
  let ?tk = "offsets_tokenizer [(0, 4), (5, 10), (11, 15)]"
  let ?tis = "tokens_and_idx ''John lives here'' [(0, 4), (5, 10), (11, 15)]"
  have h1: "spans_usable ?sps" by (simp add: spans_usable_def)
  have h2: "?tis = tokens_and_idx ''John lives here'' (?tk ''John lives here'')"
    by (simp add: offsets_tokenizer_def)
  have h3: "1 < length ?tis" by (simp add: tokens_and_idx_def)
  have h4: "\<forall>s\<in>set ?sps. \<forall>e. get_end s = Some e \<longrightarrow> snd (?tis ! 1) > e - 1"
    by (simp add: tokens_and_idx_def)
  from tokens_past_all_spans_are_O[of ?sps ?tis "''John lives here''" ?tk 1, OF h1 h2 h3 h4]
  have "\<exists>toks tgs. create_tokens_and_tags ?tk ''John lives here'' ?sps = Inr (toks, tgs) \<and>
          tgs ! 1 = ''O''"
    by blast
  then show ?thesis using h1 by (simp add: sweep_eval)
qed

text \<open>
  Claim C6, as stated, fails: a span nested in the current span is never the current one,
  and the first token it overlaps takes its tag, prefix \<open>I-\<close> included, from the
  enclosing span. Here the span \<open>[2, 3)\<close> labelled \<open>Y\<close> overlaps the token \<open>b\<close> only.
\<close>

theorem bio_counterexample:
  "create_tokens_and_tags (offsets_tokenizer [(0, 1), (2, 3), (4, 5)]) ''a b c''
      [\<lparr>get_start = Some 0, get_end = Some 5, get_labels = Some [''X'']\<rparr>,
       \<lparr>get_start = Some 2, get_end = Some 3, get_labels = Some [''Y'']\<rparr>] =
     Inr ([''a'', ''b'', ''c''], [''B-X'', ''I-X'', ''I-X''])"
  by (simp add: sweep_eval)

text \<open>
  Claim C6, amended. Every token gets exactly one tag, and a tag other than \<open>O\<close> is
  \<open>B-\<close> or \<open>I-\<close> followed by the first label of a span of the batch that overlaps the
  token; later labels of a span are never used. When the tokenizer gives the tokens in
  ascending order of their start, two more things hold. First, the span that decides a
  token is known: drop from the spans, sorted by start, the leading ones that end before
  the token's start (\<open>end - 1 < token_start\<close>); the first span left decides, and when
  none is left the tag is \<open>O\<close>. The tag is \<open>O\<close> too when that span has no label
  or does not overlap the token; otherwise it is the prefix followed by the span's first
  label, and the prefix is \<open>I-\<close> when an earlier token was tagged by that same span,
  \<open>B-\<close> when none was: two spans never share a run. Second, the guarantee of the
  claim holds for every labelled span that shares no token with another span of the
  batch: the first token it overlaps is tagged \<open>B-\<close> with its first label, each later
  token it overlaps \<open>I-\<close> with that label.
\<close>

theorem tags_follow_first_unfinished_span:
  assumes "spans_usable sps" and "tis = tokens_and_idx text (tk text)"
  shows "\<exists>ss toks tgs.
           sorted_by_start sps = Inr ss \<and>
           create_tokens_and_tags tk text sps = Inr (toks, tgs) \<and>
           toks = map fst tis \<and> length tgs = length tis \<and>
           (\<forall>i<length tis.
              tgs ! i = ''O'' \<or>
              (\<exists>s\<in>set sps. \<exists>l ls.
                 get_labels s = Some (l # ls) \<and> overlaps s (tis ! i) \<and>
                 (tgs ! i = ''B-'' @ l \<or> tgs ! i = ''I-'' @ l))) \<and>
           (sorted (map snd tis) \<longrightarrow>
              (\<forall>i<length tis.
                 case dropWhile (\<lambda>s. ends_before s (snd (tis ! i))) ss of
                   [] \<Rightarrow> tgs ! i = ''O''
                 | s # rest \<Rightarrow>
                     if overlaps s (tis ! i) \<and> \<not> not_labels s
                     then \<exists>l ls. get_labels s = Some (l # ls) \<and>
                            tgs ! i =
                              (if \<exists>j<i. tgs ! j \<noteq> ''O'' \<and>
                                     dropWhile (\<lambda>s. ends_before s (snd (tis ! j))) ss = s # rest
                               then ''I-'' else ''B-'') @ l
                     else tgs ! i = ''O'') \<and>
              (\<forall>s l ls.
                 get_labels s = Some (l # ls) \<and>
                 (\<forall>i<length tis. overlaps s (tis ! i) \<longrightarrow>
                      filter (\<lambda>x. overlaps x (tis ! i)) sps = [s]) \<longrightarrow>
                 (\<forall>i<length tis. overlaps s (tis ! i) \<longrightarrow>
                      tgs ! i = (if \<exists>j<i. overlaps s (tis ! j) then ''I-'' else ''B-'') @ l)))"
proof -
  from initial_sweep_result[OF assms(1)] obtain ss where
    ss: "sorted_by_start sps = Inr ss" "set ss = set sps"
    by blast
  from state_before_total[OF assms(1), of tis "length tis"] obtain fin where
    f: "state_before sps tis (length tis) = Inr fin" "length (tags fin) = length tis"
       "tokens fin = map fst tis" by auto
  have cr: "create_tokens_and_tags tk text sps = Inr (tokens fin, tags fin)"
    using create_by_state[of sps tis "text" tk] assms f(1) by simp
  have C: "tags fin ! i = ''O'' \<or>
           (\<exists>s\<in>set sps. \<exists>l ls.
              get_labels s = Some (l # ls) \<and> overlaps s (tis ! i) \<and>
              (tags fin ! i = ''B-'' @ l \<or> tags fin ! i = ''I-'' @ l))"
    if il: "i < length tis" for i
  proof -
    from tag_by_current_span[OF assms ss(1) cr il] obtain cur where
      cur: "sweep_inv ss cur"
        "\<not> (overlaps (span cur) (tis ! i) \<and> \<not> not_labels (span cur)) \<longrightarrow> tags fin ! i = ''O''"
        "overlaps (span cur) (tis ! i) \<and> \<not> not_labels (span cur) \<longrightarrow>
           (\<exists>l ls. get_labels (span cur) = Some (l # ls) \<and>
              (tags fin ! i = ''B-'' @ l \<or> tags fin ! i = ''I-'' @ l))"
      by (auto split: if_splits)
    have m: "span cur \<in> set sps" using sweep_inv_span_in[OF cur(1)] ss(2) by simp
    show ?thesis
    proof (cases "overlaps (span cur) (tis ! i) \<and> \<not> not_labels (span cur)")
      case True
      with cur(3) obtain l ls where "get_labels (span cur) = Some (l # ls)"
          "tags fin ! i = ''B-'' @ l \<or> tags fin ! i = ''I-'' @ l"
        by blast
      then show ?thesis using m True by blast
    next
      case False
      then show ?thesis using cur(2) by blast
    qed
  qed
  have A: "case dropWhile (\<lambda>s. ends_before s (snd (tis ! i))) ss of
             [] \<Rightarrow> tags fin ! i = ''O''
           | s # rest \<Rightarrow>
               if overlaps s (tis ! i) \<and> \<not> not_labels s
               then \<exists>l ls. get_labels s = Some (l # ls) \<and>
                      tags fin ! i =
                        (if \<exists>j<i. tags fin ! j \<noteq> ''O'' \<and>
                               dropWhile (\<lambda>s. ends_before s (snd (tis ! j))) ss = s # rest
                         then ''I-'' else ''B-'') @ l
               else tags fin ! i = ''O''"
    if srt: "sorted (map snd tis)" and il: "i < length tis" for i
    using tag_by_reached[OF assms ss(1) cr srt il] .
  have B: "tags fin ! i = (if \<exists>j<i. overlaps s (tis ! j) then ''I-'' else ''B-'') @ l"
    if srt: "sorted (map snd tis)" and lab: "get_labels s = Some (l # ls)"
      and only: "\<forall>i<length tis. overlaps s (tis ! i) \<longrightarrow>
                    filter (\<lambda>x. overlaps x (tis ! i)) sps = [s]"
      and il: "i < length tis" and ov: "overlaps s (tis ! i)" for s l ls i
  proof -
    have bnd: "list_all bounded ss"
      using assms(1) ss(2) by (auto simp: spans_usable_def list_all_iff bounded_def)
    from sorted_by_start_sorted[OF ss(1)] obtain ks where
      ks: "map get_start ss = map Some ks" "sorted ks" by blast
    have fl: "filter (\<lambda>x. overlaps x (tis ! n)) ss = [s]"
      if "n < length tis" "overlaps s (tis ! n)" for n
    proof -
      from only that have "filter (\<lambda>x. overlaps x (tis ! n)) sps = [s]" by blast
      then show ?thesis by (rule filter_sorted_by_start[OF ss(1)])
    qed
    from first_unshared[OF bnd ks fl[OF il ov]] obtain rest where
      di: "dropWhile (\<lambda>x. ends_before x (snd (tis ! i))) ss = s # rest" by blast
    have nl: "\<not> not_labels s" using lab by (simp add: not_labels_def)
    let ?I = "\<lambda>n. \<exists>j<n. tags fin ! j \<noteq> ''O'' \<and>
                    dropWhile (\<lambda>x. ends_before x (snd (tis ! j))) ss = s # rest"
    have at: "tags fin ! n = (if ?I n then ''I-'' else ''B-'') @ l"
      if n: "n < length tis" "overlaps s (tis ! n)"
         "dropWhile (\<lambda>x. ends_before x (snd (tis ! n))) ss = s # rest" for n
    proof -
      from A[OF srt n(1)] have
        "if overlaps s (tis ! n) \<and> \<not> not_labels s
         then \<exists>l ls. get_labels s = Some (l # ls) \<and>
                tags fin ! n = (if ?I n then ''I-'' else ''B-'') @ l
         else tags fin ! n = ''O''"
        by (simp only: n(3) list.case)
      then have "\<exists>l ls. get_labels s = Some (l # ls) \<and>
                  tags fin ! n = (if ?I n then ''I-'' else ''B-'') @ l"
        using n(2) nl by (simp only: simp_thms if_True)
      then show ?thesis using lab by auto
    qed
    have no: "tags fin ! n = ''O''"
      if n: "n < length tis" "\<not> overlaps s (tis ! n)"
         "dropWhile (\<lambda>x. ends_before x (snd (tis ! n))) ss = s # rest" for n
    proof -
      from A[OF srt n(1)] have
        "if overlaps s (tis ! n) \<and> \<not> not_labels s
         then \<exists>l ls. get_labels s = Some (l # ls) \<and>
                tags fin ! n = (if ?I n then ''I-'' else ''B-'') @ l
         else tags fin ! n = ''O''"
        by (simp only: n(3) list.case)
      then show ?thesis using n(2) by (simp only: simp_thms if_False)
    qed
    have one: "(tags fin ! j \<noteq> ''O'' \<and>
                dropWhile (\<lambda>x. ends_before x (snd (tis ! j))) ss = s # rest) \<longleftrightarrow>
               overlaps s (tis ! j)" if j: "j < i" for j
    proof
      have jl: "j < length tis" using j il by simp
      assume a: "tags fin ! j \<noteq> ''O'' \<and>
                 dropWhile (\<lambda>x. ends_before x (snd (tis ! j))) ss = s # rest"
      show "overlaps s (tis ! j)"
      proof (rule ccontr)
        assume "\<not> overlaps s (tis ! j)"
        from no[OF jl this] a show False by blast
      qed
    next
      have jl: "j < length tis" using j il by simp
      assume o: "overlaps s (tis ! j)"
      from unshared_same[OF bnd ks fl[OF il ov] fl[OF jl o]] di
      have dj: "dropWhile (\<lambda>x. ends_before x (snd (tis ! j))) ss = s # rest" by auto
      from at[OF jl o dj] have "tags fin ! j \<noteq> ''O''" by (auto split: if_splits)
      then show "tags fin ! j \<noteq> ''O'' \<and>
                 dropWhile (\<lambda>x. ends_before x (snd (tis ! j))) ss = s # rest"
        using dj by simp
    qed
    have eq: "?I i \<longleftrightarrow> (\<exists>j<i. overlaps s (tis ! j))" using one by blast
    show ?thesis using at[OF il ov di] unfolding eq .
  qed
  have Call: "\<forall>i<length tis.
              tags fin ! i = ''O'' \<or>
              (\<exists>s\<in>set sps. \<exists>l ls.
                 get_labels s = Some (l # ls) \<and> overlaps s (tis ! i) \<and>
                 (tags fin ! i = ''B-'' @ l \<or> tags fin ! i = ''I-'' @ l))"
    using C by blast
  have AB: "sorted (map snd tis) \<longrightarrow>
              (\<forall>i<length tis.
                 case dropWhile (\<lambda>s. ends_before s (snd (tis ! i))) ss of
                   [] \<Rightarrow> tags fin ! i = ''O''
                 | s # rest \<Rightarrow>
                     if overlaps s (tis ! i) \<and> \<not> not_labels s
                     then \<exists>l ls. get_labels s = Some (l # ls) \<and>
                            tags fin ! i =
                              (if \<exists>j<i. tags fin ! j \<noteq> ''O'' \<and>
                                     dropWhile (\<lambda>s. ends_before s (snd (tis ! j))) ss = s # rest
                               then ''I-'' else ''B-'') @ l
                     else tags fin ! i = ''O'') \<and>
              (\<forall>s l ls.
                 get_labels s = Some (l # ls) \<and>
                 (\<forall>i<length tis. overlaps s (tis ! i) \<longrightarrow>
                      filter (\<lambda>x. overlaps x (tis ! i)) sps = [s]) \<longrightarrow>
                 (\<forall>i<length tis. overlaps s (tis ! i) \<longrightarrow>
                      tags fin ! i = (if \<exists>j<i. overlaps s (tis ! j) then ''I-'' else ''B-'') @ l))"
  proof (intro impI conjI allI)
    fix i assume "sorted (map snd tis)" "i < length tis"
    then show "case dropWhile (\<lambda>s. ends_before s (snd (tis ! i))) ss of
                   [] \<Rightarrow> tags fin ! i = ''O''
                 | s # rest \<Rightarrow>
                     if overlaps s (tis ! i) \<and> \<not> not_labels s
                     then \<exists>l ls. get_labels s = Some (l # ls) \<and>
                            tags fin ! i =
                              (if \<exists>j<i. tags fin ! j \<noteq> ''O'' \<and>
                                     dropWhile (\<lambda>s. ends_before s (snd (tis ! j))) ss = s # rest
                               then ''I-'' else ''B-'') @ l
                     else tags fin ! i = ''O''"
      by (rule A)
  next
    fix s l ls i
    assume srt: "sorted (map snd tis)"
      and h: "get_labels s = Some (l # ls) \<and>
              (\<forall>i<length tis. overlaps s (tis ! i) \<longrightarrow>
                   filter (\<lambda>x. overlaps x (tis ! i)) sps = [s])"
      and il: "i < length tis" and ov: "overlaps s (tis ! i)"
    from h have lab: "get_labels s = Some (l # ls)"
      and only: "\<forall>i<length tis. overlaps s (tis ! i) \<longrightarrow>
                   filter (\<lambda>x. overlaps x (tis ! i)) sps = [s]"
      by blast+
    show "tags fin ! i = (if \<exists>j<i. overlaps s (tis ! j) then ''I-'' else ''B-'') @ l"
      using B[OF srt lab only il ov] .
  qed
  show ?thesis
    by (rule exI[of _ ss], rule exI[of _ "tokens fin"], rule exI[of _ "tags fin"])
       (intro conjI, rule ss(1), rule cr, rule f(3), rule f(2), rule Call, rule AB)
qed

theorem tags_follow_first_unfinished_span_witness:
  "spans_usable
      [\<lparr>get_start = Some 11, get_end = Some 15, get_labels = Some [''PER'']\<rparr>,
       \<lparr>get_start = Some 0, get_end = Some 10, get_labels = Some [''PER'', ''X'']\<rparr>] \<and>
   sorted (map snd (tokens_and_idx ''Anna Maria Paul'' [(0, 4), (5, 10), (11, 15)])) \<and>
   sorted_by_start
      [\<lparr>get_start = Some 11, get_end = Some 15, get_labels = Some [''PER'']\<rparr>,
       \<lparr>get_start = Some 0, get_end = Some 10, get_labels = Some [''PER'', ''X'']\<rparr>] =
     Inr [\<lparr>get_start = Some 0, get_end = Some 10, get_labels = Some [''PER'', ''X'']\<rparr>,
          \<lparr>get_start = Some 11, get_end = Some 15, get_labels = Some [''PER'']\<rparr>] \<and>
   map (\<lambda>tk. filter (\<lambda>x. overlaps x tk)
          [\<lparr>get_start = Some 11, get_end = Some 15, get_labels = Some [''PER'']\<rparr>,
           \<lparr>get_start = Some 0, get_end = Some 10, get_labels = Some [''PER'', ''X'']\<rparr>])
       (tokens_and_idx ''Anna Maria Paul'' [(0, 4), (5, 10), (11, 15)]) =
     [[\<lparr>get_start = Some 0, get_end = Some 10, get_labels = Some [''PER'', ''X'']\<rparr>],
      [\<lparr>get_start = Some 0, get_end = Some 10, get_labels = Some [''PER'', ''X'']\<rparr>],
      [\<lparr>get_start = Some 11, get_end = Some 15, get_labels = Some [''PER'']\<rparr>]] \<and>
   create_tokens_and_tags (offsets_tokenizer [(0, 4), (5, 10), (11, 15)]) ''Anna Maria Paul''
      [\<lparr>get_start = Some 11, get_end = Some 15, get_labels = Some [''PER'']\<rparr>,
       \<lparr>get_start = Some 0, get_end = Some 10, get_labels = Some [''PER'', ''X'']\<rparr>] =
     Inr ([''Anna'', ''Maria'', ''Paul''], [''B-PER'', ''I-PER'', ''B-PER''])"
proof -
  let ?S1 = "\<lparr>get_start = Some 11, get_end = Some 15, get_labels = Some [''PER'']\<rparr>"
  let ?S2 = "\<lparr>get_start = Some 0, get_end = Some 10, get_labels = Some [''PER'', ''X'']\<rparr>"
  let ?sps = "[?S1, ?S2]"
  let ?tk = "offsets_tokenizer [(0, 4), (5, 10), (11, 15)]"
  let ?tis = "tokens_and_idx ''Anna Maria Paul'' [(0, 4), (5, 10), (11, 15)]"
  have h1: "spans_usable ?sps" by (simp add: spans_usable_def)
  have h2: "?tis = tokens_and_idx ''Anna Maria Paul'' (?tk ''Anna Maria Paul'')"
    by (simp add: offsets_tokenizer_def)
  have h3: "sorted (map snd ?tis)" by (simp add: tokens_and_idx_def)
  have h4: "get_labels ?S2 = Some (''PER'' # [''X''])" by simp
  have h5: "\<forall>i<length ?tis. overlaps ?S2 (?tis ! i) \<longrightarrow>
              filter (\<lambda>x. overlaps x (?tis ! i)) ?sps = [?S2]"
  proof (intro allI impI)
    fix i assume "i < length ?tis"
    then have "i = 0 \<or> i = 1 \<or> i = 2" by (auto simp: tokens_and_idx_def)
    moreover assume "overlaps ?S2 (?tis ! i)"
    ultimately show "filter (\<lambda>x. overlaps x (?tis ! i)) ?sps = [?S2]"
      by (auto simp: tokens_and_idx_def slice_def overlaps_def token_end_def)
  qed
  have h6: "1 < length ?tis" by (simp add: tokens_and_idx_def)
  have h7: "overlaps ?S2 (?tis ! 1)"
    by (simp add: tokens_and_idx_def slice_def overlaps_def token_end_def)
  have h8: "\<exists>j<1. overlaps ?S2 (?tis ! j)"
    by (simp add: tokens_and_idx_def slice_def overlaps_def token_end_def)
  from tags_follow_first_unfinished_span[of ?sps ?tis "''Anna Maria Paul''" ?tk, OF h1 h2]
  obtain toks tgs where
    r: "create_tokens_and_tags ?tk ''Anna Maria Paul'' ?sps = Inr (toks, tgs)"
       "sorted (map snd ?tis) \<longrightarrow>
          (\<forall>s l ls.
             get_labels s = Some (l # ls) \<and>
             (\<forall>i<length ?tis. overlaps s (?tis ! i) \<longrightarrow>
                  filter (\<lambda>x. overlaps x (?tis ! i)) ?sps = [s]) \<longrightarrow>
             (\<forall>i<length ?tis. overlaps s (?tis ! i) \<longrightarrow>
                  tgs ! i = (if \<exists>j<i. overlaps s (?tis ! j) then ''I-'' else ''B-'') @ l))"
    by blast
  from r(2) h3 h4 h5 h6 h7
  have "tgs ! 1 = (if \<exists>j<1. overlaps ?S2 (?tis ! j) then ''I-'' else ''B-'') @ ''PER''"
    by blast
  with h8 have "tgs ! 1 = ''I-PER''" by simp
  with r(1) have "\<exists>toks tgs. create_tokens_and_tags ?tk ''Anna Maria Paul'' ?sps = Inr (toks, tgs) \<and>
          tgs ! 1 = ''I-PER''"
    by blast
  then show ?thesis using h1 h3
    by (simp add: sweep_eval overlaps_def)
qed

section \<open>Properties of parse_config\<close>

subsection \<open>Dicts, and one visit of the first loop\<close>

lemma map_of_dict_set: "map_of (dict_set d k v) = (map_of d)(k \<mapsto> v)"
  by (induction d) (auto simp: fun_eq_iff)

lemma keys_dict_set:
  "map fst (dict_set d k v) = (if k \<in> set (map fst d) then map fst d else map fst d @ [k])"
  by (induction d) force+

lemma set_keys_dict_set: "set (map fst (dict_set d k v)) = insert k (set (map fst d))"
  by (auto simp: keys_dict_set)

lemma in_dict_set:
  "(k', v') \<in> set (dict_set d k v) \<Longrightarrow> (k', v') = (k, v) \<or> (k', v') \<in> set d"
  by (induction d) (auto split: if_splits)

lemma distinct_dict_set:
  "distinct (map fst d) \<Longrightarrow> distinct (map fst (dict_set d k v))"
  by (simp add: keys_dict_set)

lemma default_get_dict_set:
  "default_get (dict_set L p d) k = (if k = p then d else default_get L k)"
  by (simp add: default_get_def map_of_dict_set)

lemma truthy_subscript:
  "truthy (attrib_get t k) \<Longrightarrow> \<exists>v. attrib_get t k = Some v \<and> v \<noteq> [] \<and> subscript (attrib t) k = Inr v"
  by (auto simp: truthy_def attrib_get_def subscript_def split: option.splits)

lemma conditionals_of_total: "\<exists>c. conditionals_of t = Inr c"
  by (auto simp: conditionals_of_def dest!: truthy_subscript)

lemma is_output_tag_iff:
  "is_output_tag m \<longleftrightarrow>
     (\<exists>k tn. attrib_get m ''name'' = Some k \<and> k \<noteq> [] \<and>
             attrib_get m ''toName'' = Some tn \<and> tn \<noteq> [] \<and> tag m \<noteq> ''Filter'')"
  by (auto simp: is_output_tag_def truthy_def NOT_CONTROL_TAGS_def split: option.splits)

lemma is_input_tag_iff:
  "is_input_tag m \<longleftrightarrow>
     (\<exists>k v. attrib_get m ''name'' = Some k \<and> k \<noteq> [] \<and>
            attrib_get m ''value'' = Some v \<and> v \<noteq> [])"
  by (auto simp: is_input_tag_def truthy_def split: option.splits)

lemma classify_output:
  assumes "is_output_tag m"
  shows "\<exists>k tn c. attrib_get m ''name'' = Some k \<and> attrib_get m ''toName'' = Some tn \<and>
           classify m st = Inr (st\<lparr>outputs := dict_set (outputs st) k
              \<lparr>tag_type = tag m, to_name = str_split CHR '','' tn, conditionals = c\<rparr>\<rparr>)"
proof -
  from assms have "truthy (attrib_get m ''name'')" "truthy (attrib_get m ''toName'')"
    by (auto simp: is_output_tag_def)
  then obtain k tn where
    "attrib_get m ''name'' = Some k" "subscript (attrib m) ''name'' = Inr k"
    "attrib_get m ''toName'' = Some tn" "subscript (attrib m) ''toName'' = Inr tn"
    by (blast dest: truthy_subscript)
  moreover obtain c where "conditionals_of m = Inr c" using conditionals_of_total by blast
  ultimately show ?thesis using assms by (auto simp add: classify_def record_output_def)
qed

lemma classify_input:
  assumes "\<not> is_output_tag m" "is_input_tag m"
  shows "\<exists>k v. attrib_get m ''name'' = Some k \<and> attrib_get m ''value'' = Some v \<and>
           classify m st = Inr (st\<lparr>inputs := dict_set (inputs st) k
              \<lparr>input_type = tag m, input_value = lstrip CHR ''$'' v\<rparr>\<rparr>)"
proof -
  from assms have "truthy (attrib_get m ''name'')" "truthy (attrib_get m ''value'')"
    by (auto simp: is_input_tag_def)
  then obtain k v where
    "attrib_get m ''name'' = Some k" "subscript (attrib m) ''name'' = Inr k"
    "attrib_get m ''value'' = Some v" "subscript (attrib m) ''value'' = Inr v"
    by (blast dest: truthy_subscript)
  then show ?thesis using assms by (simp add: classify_def record_input_def)
qed

lemma classify_neither:
  "\<not> is_output_tag m \<Longrightarrow> \<not> is_input_tag m \<Longrightarrow> classify m st = Inr st"
  by (simp add: classify_def)

lemma classify_total:
  "\<exists>st'. classify m st = Inr st' \<and> labels st' = labels st \<and> log st' = log st \<and>
     (is_output_tag m \<longrightarrow> inputs st' = inputs st) \<and>
     (\<not> is_output_tag m \<longrightarrow> outputs st' = outputs st)"
proof (cases "is_output_tag m")
  case True
  from classify_output[OF True, of st] show ?thesis using True by auto
next
  case False
  show ?thesis
  proof (cases "is_input_tag m")
    case True
    from classify_input[OF False True, of st] show ?thesis using False by auto
  next
    case F: False
    then show ?thesis using False by (simp add: classify_neither)
  qed
qed

lemma record_label_keeps:
  "inputs (record_label ps m st) = inputs st \<and> outputs (record_label ps m st) = outputs st"
  by (simp add: record_label_def split: option.splits)

lemma visit_tag_unfold:
  "visit_tag st (ps, m) =
     (case classify m st of Inl e \<Rightarrow> Inl e
      | Inr st1 \<Rightarrow> Inr (if tag m \<in> LABEL_TAGS then record_label ps m st1 else st1))"
  by (simp add: visit_tag_def split: sum.splits)

lemma visit_tag_total:
  "\<exists>st1 st'. classify (snd it) st = Inr st1 \<and> visit_tag st it = Inr st' \<and>
      inputs st' = inputs st1 \<and> outputs st' = outputs st1"
proof -
  obtain ps m where it: "it = (ps, m)" by (cases it)
  obtain st1 where c: "classify m st = Inr st1" using classify_total by blast
  show ?thesis using it c by (simp add: visit_tag_unfold record_label_keeps)
qed

lemma visit_all_total: "\<exists>st'. visit_all st its = Inr st'"
proof (induction its arbitrary: st)
  case Nil
  then show ?case by simp
next
  case (Cons it its)
  obtain st1 where "visit_tag st it = Inr st1" using visit_tag_total by blast
  with Cons[of st1] show ?case by simp
qed

lemma visit_all_append:
  "visit_all st (xs @ ys) =
     (case visit_all st xs of Inl e \<Rightarrow> Inl e | Inr st' \<Rightarrow> visit_all st' ys)"
  by (induction xs arbitrary: st) (auto split: sum.splits)

lemma visit_all_snoc:
  "visit_all st (xs @ [it]) =
     (case visit_all st xs of Inl e \<Rightarrow> Inl e | Inr st' \<Rightarrow> visit_tag st' it)"
  by (simp add: visit_all_append split: sum.splits)

subsection \<open>The keys and the items that the first loop records\<close>

lemma visit_tag_keys:
  assumes "visit_tag st (ps, m) = Inr st'"
  shows "set (map fst (outputs st')) =
           set (map fst (outputs st)) \<union> {k. is_output_tag m \<and> attrib_get m ''name'' = Some k}"
    and "set (map fst (inputs st')) =
           set (map fst (inputs st)) \<union>
           {k. \<not> is_output_tag m \<and> is_input_tag m \<and> attrib_get m ''name'' = Some k}"
proof -
  from visit_tag_total[of "(ps, m)" st] assms obtain st1 where
    c: "classify m st = Inr st1" "inputs st' = inputs st1" "outputs st' = outputs st1"
    by auto
  show "set (map fst (outputs st')) =
           set (map fst (outputs st)) \<union> {k. is_output_tag m \<and> attrib_get m ''name'' = Some k}"
  proof (cases "is_output_tag m")
    case True
    from classify_output[OF True, of st] c show ?thesis
      using True by (auto simp: set_keys_dict_set simp del: set_map)
  next
    case False
    with classify_total[of m st] c show ?thesis by auto
  qed
  show "set (map fst (inputs st')) =
           set (map fst (inputs st)) \<union>
           {k. \<not> is_output_tag m \<and> is_input_tag m \<and> attrib_get m ''name'' = Some k}"
  proof (cases "is_output_tag m")
    case True
    with classify_total[of m st] c show ?thesis by auto
  next
    case False
    show ?thesis
    proof (cases "is_input_tag m")
      case True
      from classify_input[OF False True, of st] c show ?thesis
        using False True by (auto simp: set_keys_dict_set simp del: set_map)
    next
      case F: False
      then show ?thesis using False c by (simp add: classify_neither)
    qed
  qed
qed

lemma visit_tag_outputs_from:
  assumes "visit_tag st (ps, m) = Inr st'" "(k, info) \<in> set (outputs st')"
  shows "(k, info) \<in> set (outputs st) \<or>
         (\<exists>tn c. is_output_tag m \<and> attrib_get m ''name'' = Some k \<and>
            attrib_get m ''toName'' = Some tn \<and>
            info = \<lparr>tag_type = tag m, to_name = str_split CHR '','' tn, conditionals = c\<rparr>)"
proof -
  from visit_tag_total[of "(ps, m)" st] assms obtain st1 where
    c: "classify m st = Inr st1" "outputs st' = outputs st1"
    by auto
  show ?thesis
  proof (cases "is_output_tag m")
    case True
    from classify_output[OF True, of st] c obtain k' tn c' where
      o: "attrib_get m ''name'' = Some k'" "attrib_get m ''toName'' = Some tn"
         "outputs st' = dict_set (outputs st) k'
              \<lparr>tag_type = tag m, to_name = str_split CHR '','' tn, conditionals = c'\<rparr>"
      by auto
    from in_dict_set[of k info "outputs st" k'] assms(2) o(3)
    show ?thesis using True o(1,2) by auto
  next
    case False
    with classify_total[of m st] c assms(2) show ?thesis by auto
  qed
qed

lemma visit_all_keys:
  "visit_all st its = Inr st' \<Longrightarrow>
     set (map fst (outputs st')) =
       set (map fst (outputs st)) \<union>
       {k. \<exists>m\<in>set (map snd its). is_output_tag m \<and> attrib_get m ''name'' = Some k} \<and>
     set (map fst (inputs st')) =
       set (map fst (inputs st)) \<union>
       {k. \<exists>m\<in>set (map snd its). \<not> is_output_tag m \<and> is_input_tag m \<and>
             attrib_get m ''name'' = Some k}"
proof (induction its arbitrary: st)
  case Nil
  then show ?case by simp
next
  case (Cons it its)
  obtain ps m where it: "it = (ps, m)" by (cases it)
  from Cons.prems obtain st1 where
    s: "visit_tag st (ps, m) = Inr st1" "visit_all st1 its = Inr st'"
    using it by (auto split: sum.splits)
  from Cons.IH[OF s(2)] visit_tag_keys[OF s(1)] show ?case
    unfolding it by (simp del: set_map) blast
qed

lemma visit_all_outputs_from:
  "visit_all st its = Inr st' \<Longrightarrow> (k, info) \<in> set (outputs st') \<Longrightarrow>
     (k, info) \<in> set (outputs st) \<or>
     (\<exists>m\<in>set (map snd its). \<exists>tn c. is_output_tag m \<and> attrib_get m ''name'' = Some k \<and>
            attrib_get m ''toName'' = Some tn \<and>
            info = \<lparr>tag_type = tag m, to_name = str_split CHR '','' tn, conditionals = c\<rparr>)"
proof (induction its arbitrary: st)
  case Nil
  then show ?case by simp
next
  case (Cons it its)
  obtain ps m where it: "it = (ps, m)" by (cases it)
  from Cons.prems obtain st1 where
    s: "visit_tag st (ps, m) = Inr st1" "visit_all st1 its = Inr st'"
    using it by (auto split: sum.splits)
  from Cons.IH[OF s(2) Cons.prems(2)] show ?case
  proof
    assume "(k, info) \<in> set (outputs st1)"
    from visit_tag_outputs_from[OF s(1) this] show ?thesis unfolding it by auto
  next
    assume "\<exists>m\<in>set (map snd its). \<exists>tn c. is_output_tag m \<and> attrib_get m ''name'' = Some k \<and>
            attrib_get m ''toName'' = Some tn \<and>
            info = \<lparr>tag_type = tag m, to_name = str_split CHR '','' tn, conditionals = c\<rparr>"
    then show ?thesis by auto
  qed
qed

lemma resolve_inputs_result:
  "resolve_inputs ins k ns =
     Inr (lookups ins ns,
          map (\<lambda>n. ToNameNotFound n k) (filter (\<lambda>n. n \<notin> set (map fst ins)) ns))"
proof (induction ns)
  case Nil
  then show ?case by simp
next
  case (Cons n ns)
  show ?case
  proof (cases "n \<in> set (map fst ins)")
    case True
    then obtain v where "map_of ins n = Some v"
      by (metis map_of_eq_None_iff not_Some_eq set_map)
    then show ?thesis using True Cons by (simp add: subscript_def)
  next
    case False
    then have "map_of ins n = None" by (simp add: map_of_eq_None_iff)
    then show ?thesis using False Cons by simp
  qed
qed


lemma complete_outputs_result:
  "complete_outputs st outs = Inr (map (completed st) outs, concat (map (not_found st) outs))"
  by (induction outs) (auto simp: resolve_inputs_result completed_def not_found_def)

lemma parse_tree_result:
  "\<exists>st. first_loop t = Inr st \<and>
        parse_tree t = Inr (map (completed st) (outputs st),
                            log st @ concat (map (not_found st) (outputs st)))"
proof -
  obtain st where "first_loop t = Inr st"
    using visit_all_total by (auto simp: first_loop_def)
  then show ?thesis by (simp add: parse_tree_def complete_outputs_result)
qed

lemma first_loop_keys:
  assumes "first_loop t = Inr st"
  shows "set (map fst (outputs st)) =
           {k. \<exists>m\<in>set (elements t). is_output_tag m \<and> attrib_get m ''name'' = Some k}"
    and "set (map fst (inputs st)) =
           {k. \<exists>m\<in>set (elements t). \<not> is_output_tag m \<and> is_input_tag m \<and>
                 attrib_get m ''name'' = Some k}"
  using visit_all_keys[of initial_state "iter [] t" st] assms
  by (simp_all add: first_loop_def elements_def initial_state_def)

lemma first_loop_outputs_from:
  assumes "first_loop t = Inr st" "(k, info) \<in> set (outputs st)"
  shows "\<exists>m\<in>set (elements t). \<exists>tn c. is_output_tag m \<and> attrib_get m ''name'' = Some k \<and>
            attrib_get m ''toName'' = Some tn \<and>
            info = \<lparr>tag_type = tag m, to_name = str_split CHR '','' tn, conditionals = c\<rparr>"
  using visit_all_outputs_from[of initial_state "iter [] t" st k info] assms
  by (simp add: first_loop_def elements_def initial_state_def)

lemma schema_entry:
  assumes "(k, info) \<in> set (map (completed st) outs)"
  shows "\<exists>oi. (k, oi) \<in> set outs \<and> tag_type info = tag_type oi \<and> to_name info = to_name oi \<and>
           conditionals info = conditionals oi \<and>
           tag_inputs info = lookups (inputs st) (to_name oi) \<and>
           tag_labels info = map fst (default_get (labels st) k) \<and>
           labels_attrs info = default_get (labels st) k"
  using assms by (auto simp: completed_def)

lemma keys_completed: "map fst (map (completed st) outs) = map fst outs"
  by (simp add: completed_def comp_def)

lemma length_lookups:
  "length (lookups d ns) = length (filter (\<lambda>n. n \<in> set (map fst d)) ns)"
proof (induction ns)
  case Nil
  then show ?case by simp
next
  case (Cons n ns)
  show ?case
  proof (cases "map_of d n")
    case None
    then have "n \<notin> set (map fst d)" by (simp add: map_of_eq_None_iff)
    with None Cons show ?thesis by simp
  next
    case (Some v)
    then have "n \<in> set (map fst d)" by (metis map_of_eq_None_iff option.distinct(1) set_map)
    with Some Cons show ?thesis by simp
  qed
qed

lemma lookups_skip:
  "map_of d k = None \<Longrightarrow> lookups d (filter (\<lambda>n. n \<noteq> k) ns) = lookups d ns"
  by (induction ns) (auto split: option.splits)

subsection \<open>The labels that the first loop records\<close>

lemma keys_fold_upsert:
  "map fst (fold upsert ws d) =
     map fst d @ filter (\<lambda>v. v \<notin> set (map fst d)) (first_seen (map fst ws))"
proof (induction ws arbitrary: d)
  case Nil
  then show ?case by simp
next
  case (Cons w ws)
  show ?case
  proof (cases "fst w \<in> set (map fst d)")
    case True
    then have k: "map fst (upsert w d) = map fst d" by (simp add: upsert_def keys_dict_set)
    have "filter (\<lambda>v. v \<notin> set (map fst d)) (filter (\<lambda>y. y \<noteq> fst w) (first_seen (map fst ws))) =
          filter (\<lambda>v. v \<notin> set (map fst d)) (first_seen (map fst ws))"
      using True by (auto intro: filter_cong)
    then show ?thesis using Cons[of "upsert w d"] True k by simp
  next
    case False
    then have k: "map fst (upsert w d) = map fst d @ [fst w]"
      by (simp add: upsert_def keys_dict_set)
    have "filter (\<lambda>v. v \<notin> set (map fst d @ [fst w])) (first_seen (map fst ws)) =
          filter (\<lambda>v. v \<notin> set (map fst d)) (filter (\<lambda>y. y \<noteq> fst w) (first_seen (map fst ws)))"
      by (auto intro: filter_cong)
    then show ?thesis using Cons[of "upsert w d"] False k by simp
  qed
qed

lemma map_of_fold_upsert:
  "map_of (fold upsert ws d) = map_of d ++ map_of (rev ws)"
proof (induction ws arbitrary: d)
  case Nil
  then show ?case by simp
next
  case (Cons w ws)
  have u: "map_of (upsert w d) = (map_of d)(fst w \<mapsto> snd w)"
    by (simp add: upsert_def map_of_dict_set)
  have "map_of (fold upsert (w # ws) d) = map_of (upsert w d) ++ map_of (rev ws)"
    using Cons[of "upsert w d"] by simp
  also have "\<dots> = (map_of d)(fst w \<mapsto> snd w) ++ map_of (rev ws)"
    by (simp only: u)
  also have "\<dots> = map_of d ++ map_of (rev (w # ws))"
    by (cases w) (auto simp: fun_eq_iff map_add_def split: option.splits)
  finally show ?case .
qed

lemma distinct_first_seen: "distinct (first_seen xs)"
  by (induction xs) auto

lemma set_first_seen: "set (first_seen xs) = set xs"
  by (induction xs) auto

lemma visit_tag_labels:
  assumes "classify m st = Inr st1"
  shows "\<exists>st'. visit_tag st (ps, m) = Inr st' \<and>
           (\<forall>k. default_get (labels st') k =
              fold upsert (entries_under k (case label_entry st1 (ps, m) of None \<Rightarrow> [] | Some w \<Rightarrow> [w]))
                (default_get (labels st) k))"
proof -
  from classify_total[of m st] assms have l: "labels st1 = labels st" by auto
  show ?thesis
  proof (cases "label_entry st1 (ps, m)")
    case None
    then have "(if tag m \<in> LABEL_TAGS then record_label ps m st1 else st1) = st1 \<or>
               (\<exists>lg. (if tag m \<in> LABEL_TAGS then record_label ps m st1 else st1) = st1\<lparr>log := lg\<rparr>)"
      by (auto simp: label_entry_def record_label_def truthy_def split: option.splits if_splits)
    then have "labels (if tag m \<in> LABEL_TAGS then record_label ps m st1 else st1) = labels st"
      using l by auto
    then show ?thesis using assms None
      by (simp add: visit_tag_unfold entries_under_def)
  next
    case (Some w)
    obtain p v a where w: "w = (p, v, a)" by (cases w)
    from Some w have "tag m \<in> LABEL_TAGS"
      "record_label ps m st1 = st1\<lparr>labels := dict_set (labels st1) p
                          (dict_set (default_get (labels st1) p) v a)\<rparr>"
      by (auto simp: label_entry_def record_label_def truthy_def split: option.splits if_splits)
    then show ?thesis using assms Some w l
      by (simp add: visit_tag_unfold entries_under_def default_get_dict_set upsert_def)
  qed
qed

lemma visit_all_labels:
  "visit_all st its = Inr st' \<Longrightarrow>
     default_get (labels st') k =
       fold upsert (entries_under k (label_entries st its)) (default_get (labels st) k)"
proof (induction its arbitrary: st)
  case Nil
  then show ?case by (simp add: entries_under_def)
next
  case (Cons it its)
  obtain ps m where it: "it = (ps, m)" by (cases it)
  obtain st1 where c: "classify m st = Inr st1" using classify_total by blast
  from visit_tag_labels[OF c, of ps] obtain st2 where
    v: "visit_tag st (ps, m) = Inr st2"
       "\<forall>k. default_get (labels st2) k =
              fold upsert (entries_under k (case label_entry st1 (ps, m) of None \<Rightarrow> [] | Some w \<Rightarrow> [w]))
                (default_get (labels st) k)"
    by blast
  from Cons.prems v(1) it have r: "visit_all st2 its = Inr st'" by simp
  have e: "label_entries st (it # its) =
           (case label_entry st1 (ps, m) of None \<Rightarrow> [] | Some w \<Rightarrow> [w]) @ label_entries st2 its"
    using c v(1) it by simp
  show ?case
    unfolding e using Cons.IH[OF r] v(2) by (simp add: entries_under_def)
qed

lemma iter_parents:
  "(ps, m) \<in> set (iter anc t) \<Longrightarrow>
     (ps = anc \<and> m = t) \<or>
     (\<exists>p rest. ps = p # rest \<and> m \<in> set (children p) \<and> (rest, p) \<in> set (iter anc t))"
proof (induction anc t arbitrary: ps m rule: iter.induct)
  case (1 parents tg a cs)
  let ?n = "Node tg a cs"
  from "1.prems" consider (root) "ps = parents" "m = ?n"
    | (below) c where "c \<in> set cs" "(ps, m) \<in> set (iter (?n # parents) c)"
    by auto
  then show ?case
  proof cases
    case root
    then show ?thesis by simp
  next
    case (below c)
    have sub: "set (iter (?n # parents) c) \<subseteq> set (iter parents ?n)"
      using below(1) by auto
    from "1.IH"[OF below(1) below(2)] show ?thesis
    proof
      assume "ps = ?n # parents \<and> m = c"
      then show ?thesis using below(1) by auto
    next
      assume "\<exists>p rest. ps = p # rest \<and> m \<in> set (children p) \<and>
                (rest, p) \<in> set (iter (?n # parents) c)"
      then show ?thesis using sub by blast
    qed
  qed
qed

lemma get_parent_None:
  "get_parent_output_tag_name ps outs = None \<Longrightarrow>
     \<forall>p\<in>set ps. \<forall>n. attrib_get p ''name'' = Some n \<longrightarrow> n \<notin> set (map fst outs)"
  by (induction ps) (auto split: option.splits if_splits)

lemma get_parent_Some:
  "get_parent_output_tag_name ps outs = Some owner \<Longrightarrow>
     \<exists>near p far. ps = near @ p # far \<and> attrib_get p ''name'' = Some owner \<and>
        owner \<in> set (map fst outs) \<and>
        (\<forall>q\<in>set near. \<forall>n. attrib_get q ''name'' = Some n \<longrightarrow> n \<notin> set (map fst outs))"
proof (induction ps)
  case Nil
  then show ?case by simp
next
  case (Cons a ps)
  show ?case
  proof (cases "\<exists>n. attrib_get a ''name'' = Some n \<and> n \<in> set (map fst outs)")
    case True
    then obtain n where n: "attrib_get a ''name'' = Some n" "n \<in> set (map fst outs)" by blast
    with Cons.prems have "n = owner" by simp
    with n show ?thesis by (intro exI[of _ "[]"] exI[of _ a] exI[of _ ps]) simp
  next
    case False
    with Cons.prems have "get_parent_output_tag_name ps outs = Some owner"
      by (auto split: option.splits if_splits)
    from Cons.IH[OF this] obtain near p far where
      r: "ps = near @ p # far" "attrib_get p ''name'' = Some owner"
         "owner \<in> set (map fst outs)"
         "\<forall>q\<in>set near. \<forall>n. attrib_get q ''name'' = Some n \<longrightarrow> n \<notin> set (map fst outs)"
      by blast
    show ?thesis
      by (rule exI[of _ "a # near"], rule exI[of _ p], rule exI[of _ far])
         (use r False in auto)
  qed
qed

lemmas parse_eval =
  parse_tree_def first_loop_def initial_state_def visit_tag_def classify_def
  record_output_def record_input_def record_label_def conditionals_of_def
  is_output_tag_def is_input_tag_def truthy_def attrib_get_def subscript_def
  default_get_def actual_value_def LABEL_TAGS_def NOT_CONTROL_TAGS_def lstrip_def
  elements_def label_entry_def entries_under_def

subsection \<open>The claims on parsing\<close>

text \<open>
  Claim C2. Take a \<open>Label\<close> or \<open>Choice\<close> element \<open>m\<close> of the tree, at position \<open>i\<close> of the
  document order, with its chain of parents (empty for the root; else the element is a
  child of the first parent, whose own chain is the rest). When it is visited the keys of \<open>outputs\<close>
  are the names of the output tags among the first \<open>i + 1\<close> elements. If no parent has
  such a name the visit leaves \<open>labels\<close> as it was: the element contributes no label.
  Otherwise the owner is the name of the nearest such parent, whatever the parents in
  between are, and a label with a value is stored under that owner. The example is the
  config \<open><Choices name="c1" toName="t1"><View><Choice value="x"/></View></Choices>\<close>,
  whose labels for \<open>c1\<close> are \<open>["x"]\<close>.
\<close>

theorem owner_is_nearest_recorded_parent:
  assumes "i < length (iter [] t)" and "iter [] t ! i = (parents, m)" and "tag m \<in> LABEL_TAGS"
  shows "\<exists>st st1 st'.
     ((parents = [] \<and> m = t) \<or>
      (\<exists>p rest. parents = p # rest \<and> m \<in> set (children p) \<and>
          (rest, p) \<in> set (iter [] t))) \<and>
     visit_all initial_state (take i (iter [] t)) = Inr st \<and>
     classify m st = Inr st1 \<and>
     visit_all initial_state (take (Suc i) (iter [] t)) = Inr st' \<and>
     set (map fst (outputs st1)) =
       {k. \<exists>e\<in>set (map snd (take (Suc i) (iter [] t))).
              is_output_tag e \<and> attrib_get e ''name'' = Some k} \<and>
     (case get_parent_output_tag_name parents (outputs st1) of
        None \<Rightarrow>
          (\<forall>p\<in>set parents. \<forall>n. attrib_get p ''name'' = Some n \<longrightarrow>
               n \<notin> set (map fst (outputs st1))) \<and>
          labels st' = labels st
      | Some owner \<Rightarrow>
          (\<exists>near p far. parents = near @ p # far \<and> attrib_get p ''name'' = Some owner \<and>
              owner \<in> set (map fst (outputs st1)) \<and>
              (\<forall>q\<in>set near. \<forall>n. attrib_get q ''name'' = Some n \<longrightarrow>
                   n \<notin> set (map fst (outputs st1)))) \<and>
          (\<forall>v. actual_value m = Some v \<and> v \<noteq> [] \<longrightarrow>
               labels st' = dict_set (labels st) owner
                  (dict_set (default_get (labels st) owner) v (attrib m))))"
proof -
  let ?its = "iter [] t"
  obtain st where st: "visit_all initial_state (take i ?its) = Inr st"
    using visit_all_total by blast
  from classify_total[of m st] obtain st1 where
    c: "classify m st = Inr st1" "labels st1 = labels st" by blast
  define st' where "st' = record_label parents m st1"
  have tk: "take (Suc i) ?its = take i ?its @ [(parents, m)]"
    using assms(1,2) by (simp add: take_Suc_conv_app_nth)
  have v: "visit_tag st (parents, m) = Inr st'"
    using c(1) assms(3) by (simp add: visit_tag_unfold st'_def)
  have r: "visit_all initial_state (take (Suc i) ?its) = Inr st'"
    unfolding tk using st v by (simp add: visit_all_snoc)
  have "outputs st' = outputs st1" by (simp add: st'_def record_label_keeps)
  then have k: "set (map fst (outputs st1)) =
       {k. \<exists>e\<in>set (map snd (take (Suc i) ?its)). is_output_tag e \<and> attrib_get e ''name'' = Some k}"
    using visit_all_keys[OF r] by (simp add: initial_state_def)
  have body: "(case get_parent_output_tag_name parents (outputs st1) of
        None \<Rightarrow>
          (\<forall>p\<in>set parents. \<forall>n. attrib_get p ''name'' = Some n \<longrightarrow>
               n \<notin> set (map fst (outputs st1))) \<and>
          labels st' = labels st
      | Some owner \<Rightarrow>
          (\<exists>near p far. parents = near @ p # far \<and> attrib_get p ''name'' = Some owner \<and>
              owner \<in> set (map fst (outputs st1)) \<and>
              (\<forall>q\<in>set near. \<forall>n. attrib_get q ''name'' = Some n \<longrightarrow>
                   n \<notin> set (map fst (outputs st1)))) \<and>
          (\<forall>v. actual_value m = Some v \<and> v \<noteq> [] \<longrightarrow>
               labels st' = dict_set (labels st) owner
                  (dict_set (default_get (labels st) owner) v (attrib m))))"
  proof (cases "get_parent_output_tag_name parents (outputs st1)")
    case None
    then have "labels st' = labels st" using c(2) by (simp add: st'_def record_label_def)
    then show ?thesis using None get_parent_None[OF None] by simp
  next
    case (Some owner)
    have "labels st' = dict_set (labels st) owner
                  (dict_set (default_get (labels st) owner) v (attrib m))"
      if "actual_value m = Some v" "v \<noteq> []" for v
      using that Some c(2) by (simp add: st'_def record_label_def truthy_def)
    then show ?thesis using Some get_parent_Some[OF Some] by simp
  qed
  have "(parents, m) \<in> set ?its" using assms(1,2) by (metis nth_mem)
  from iter_parents[OF this] have chain:
    "(parents = [] \<and> m = t) \<or>
     (\<exists>p rest. parents = p # rest \<and> m \<in> set (children p) \<and> (rest, p) \<in> set ?its)" .
  show ?thesis
    by (rule exI[of _ st], rule exI[of _ st1], rule exI[of _ st'])
       (use chain st c(1) r k body in blast)
qed

theorem owner_is_nearest_recorded_parent_witness:
  "iter [] (Node ''Choices'' [(''name'', ''c1''), (''toName'', ''t1'')]
              [Node ''View'' [] [Node ''Choice'' [(''value'', ''x'')] []]]) ! 2 =
     ([Node ''View'' [] [Node ''Choice'' [(''value'', ''x'')] []],
       Node ''Choices'' [(''name'', ''c1''), (''toName'', ''t1'')]
              [Node ''View'' [] [Node ''Choice'' [(''value'', ''x'')] []]]],
      Node ''Choice'' [(''value'', ''x'')] []) \<and>
   parse_tree (Node ''Choices'' [(''name'', ''c1''), (''toName'', ''t1'')]
              [Node ''View'' [] [Node ''Choice'' [(''value'', ''x'')] []]]) =
   Inr ([(''c1'', \<lparr>tag_type = ''Choices'', to_name = [''t1''], conditionals = None,
                   tag_inputs = [], tag_labels = [''x''],
                   labels_attrs = [(''x'', [(''value'', ''x'')])]\<rparr>)],
        [ToNameNotFound ''t1'' ''c1''])"
proof -
  let ?choice = "Node ''Choice'' [(''value'', ''x'')] []"
  let ?view = "Node ''View'' [] [?choice]"
  let ?choices = "Node ''Choices'' [(''name'', ''c1''), (''toName'', ''t1'')] [?view]"
  have h1: "2 < length (iter [] ?choices)" by simp
  have h2: "iter [] ?choices ! 2 = ([?view, ?choices], ?choice)" by simp
  have h3: "tag ?choice \<in> LABEL_TAGS" by (simp add: LABEL_TAGS_def)
  from owner_is_nearest_recorded_parent[OF h1 h2 h3]
  have "\<exists>st'. visit_all initial_state (take (Suc 2) (iter [] ?choices)) = Inr st'"
    by blast
  then show ?thesis using h2 by (simp add: parse_eval)
qed

text \<open>
  Claim C3. For every output tag \<open>k\<close> of the returned dict, \<open>labels\<close> lists the values
  stored under \<open>k\<close> in the order of the traversal, each where it is first seen and once
  only; these are the keys of \<open>labels_attrs\<close>, in the same order; and \<open>labels_attrs\<close> holds
  for each value the attributes of its last occurrence. The example is a config with the
  labels \<open>L1\<close>, \<open>L2\<close>, \<open>L1\<close> under one output tag.
\<close>

theorem labels_first_seen_last_attrs:
  "\<exists>schema lg. parse_tree t = Inr (schema, lg) \<and>
     (\<forall>(k, info)\<in>set schema.
        tag_labels info =
          first_seen (map fst (entries_under k (label_entries initial_state (iter [] t)))) \<and>
        distinct (tag_labels info) \<and>
        map fst (labels_attrs info) = tag_labels info \<and>
        map_of (labels_attrs info) =
          map_of (rev (entries_under k (label_entries initial_state (iter [] t)))))"
proof -
  from parse_tree_result[of t] obtain st where
    st: "first_loop t = Inr st"
        "parse_tree t = Inr (map (completed st) (outputs st),
                             log st @ concat (map (not_found st) (outputs st)))"
    by blast
  let ?schema = "map (completed st) (outputs st)"
  let ?lg = "log st @ concat (map (not_found st) (outputs st))"
  let ?ws = "\<lambda>k. entries_under k (label_entries initial_state (iter [] t))"
  have d: "default_get (labels st) k = fold upsert (?ws k) []" for k
    using visit_all_labels[of initial_state "iter [] t" st k] st(1)
    by (simp add: first_loop_def default_get_def initial_state_def)
  have keys: "map fst (default_get (labels st) k) = first_seen (map fst (?ws k))" for k
    unfolding d keys_fold_upsert by (simp add: distinct_first_seen)
  have mo: "map_of (default_get (labels st) k) = map_of (rev (?ws k))" for k
    unfolding d map_of_fold_upsert by simp
  have all: "\<forall>(k, info)\<in>set ?schema.
        tag_labels info = first_seen (map fst (?ws k)) \<and>
        distinct (tag_labels info) \<and>
        map fst (labels_attrs info) = tag_labels info \<and>
        map_of (labels_attrs info) = map_of (rev (?ws k))"
  proof (intro ballI)
    fix e assume e: "e \<in> set ?schema"
    obtain k info where ki: "e = (k, info)" by (cases e)
    from schema_entry[of k info st "outputs st"] e ki have
      o: "tag_labels info = map fst (default_get (labels st) k)"
         "labels_attrs info = default_get (labels st) k"
      by auto
    show "case e of (k, info) \<Rightarrow>
        tag_labels info = first_seen (map fst (?ws k)) \<and>
        distinct (tag_labels info) \<and>
        map fst (labels_attrs info) = tag_labels info \<and>
        map_of (labels_attrs info) = map_of (rev (?ws k))"
      unfolding ki using o keys[of k] mo[of k] by (simp add: distinct_first_seen)
  qed
  show ?thesis
    by (rule exI[of _ ?schema], rule exI[of _ ?lg]) (use st(2) all in blast)
qed

theorem labels_first_seen_last_attrs_witness:
  "label_entries initial_state (iter []
     (Node ''Labels'' [(''name'', ''lbl''), (''toName'', ''txt'')]
        [Node ''Label'' [(''value'', ''L1''), (''background'', ''red'')] [],
         Node ''Label'' [(''value'', ''L2'')] [],
         Node ''Label'' [(''value'', ''L1''), (''background'', ''blue'')] []])) =
     [(''lbl'', ''L1'', [(''value'', ''L1''), (''background'', ''red'')]),
      (''lbl'', ''L2'', [(''value'', ''L2'')]),
      (''lbl'', ''L1'', [(''value'', ''L1''), (''background'', ''blue'')])] \<and>
   parse_tree (Node ''Labels'' [(''name'', ''lbl''), (''toName'', ''txt'')]
        [Node ''Label'' [(''value'', ''L1''), (''background'', ''red'')] [],
         Node ''Label'' [(''value'', ''L2'')] [],
         Node ''Label'' [(''value'', ''L1''), (''background'', ''blue'')] []]) =
   Inr ([(''lbl'', \<lparr>tag_type = ''Labels'', to_name = [''txt''], conditionals = None,
                    tag_inputs = [], tag_labels = [''L1'', ''L2''],
                    labels_attrs = [(''L1'', [(''value'', ''L1''), (''background'', ''blue'')]),
                                    (''L2'', [(''value'', ''L2'')])]\<rparr>)],
        [ToNameNotFound ''txt'' ''lbl''])"
  using labels_first_seen_last_attrs[of "Node ''Labels'' [(''name'', ''lbl''), (''toName'', ''txt'')]
        [Node ''Label'' [(''value'', ''L1''), (''background'', ''red'')] [],
         Node ''Label'' [(''value'', ''L2'')] [],
         Node ''Label'' [(''value'', ''L1''), (''background'', ''blue'')] []]"]
  by (simp add: parse_eval)

text \<open>
  Claim C4, as stated, fails: \<open>parse_config\<close> catches the \<open>XMLSyntaxError\<close> of the parser
  only. For a \<open>str\<close> with an encoding declaration, well-formed as it is, \<open>lxml\<close> raises a
  \<open>ValueError\<close> of its own, and \<open>parse_config\<close> lets it through.
\<close>

theorem encoding_declaration_counterexample:
  "table_parser
     [(''<?xml version='1.0' encoding='utf-8'?><View/>'',
       Inl (OtherException
              (ValueError ''Unicode strings with encoding declaration are not supported. Please use bytes input or XML fragments without declaration.'')))]
     ''<?xml version='1.0' encoding='utf-8'?><View/>'' =
     Inl (OtherException
            (ValueError ''Unicode strings with encoding declaration are not supported. Please use bytes input or XML fragments without declaration.'')) \<and>
   parse_config
     (table_parser
        [(''<?xml version='1.0' encoding='utf-8'?><View/>'',
          Inl (OtherException
                 (ValueError ''Unicode strings with encoding declaration are not supported. Please use bytes input or XML fragments without declaration.'')))])
     (Some ''<?xml version='1.0' encoding='utf-8'?><View/>'') =
     Inl (ValueError ''Unicode strings with encoding declaration are not supported. Please use bytes input or XML fragments without declaration.'')"
  by (simp add: parse_config_def table_parser_def)

text \<open>
  Claim C4, amended. \<open>parse_config\<close> returns the empty dict for a config string that is
  \<open>None\<close> or empty. For a string that the XML parser rejects with a syntax error it
  raises \<open>ValueError\<close> with the parser's message. Any other exception of the parser
  passes through as it is. When the parser gives a tree, \<open>parse_config\<close> returns a
  dict: no subscript of either loop raises.
\<close>

theorem parse_config_raises_what_the_parser_raises:
  "parse_config fromstring None = Inr ([], []) \<and>
   parse_config fromstring (Some []) = Inr ([], []) \<and>
   (\<forall>s msg. s \<noteq> [] \<longrightarrow> fromstring s = Inl (XMLSyntaxError msg) \<longrightarrow>
      parse_config fromstring (Some s) = Inl (ValueError msg)) \<and>
   (\<forall>s e. s \<noteq> [] \<longrightarrow> fromstring s = Inl (OtherException e) \<longrightarrow>
      parse_config fromstring (Some s) = Inl e) \<and>
   (\<forall>s t. s \<noteq> [] \<longrightarrow> fromstring s = Inr t \<longrightarrow>
      (\<exists>schema lg. parse_tree t = Inr (schema, lg) \<and>
                   parse_config fromstring (Some s) = Inr (schema, lg)))"
proof -
  have "\<exists>schema lg. parse_tree t = Inr (schema, lg) \<and>
                    parse_config fromstring (Some s) = Inr (schema, lg)"
    if "s \<noteq> []" "fromstring s = Inr t" for s t
    using parse_tree_result[of t] that by (auto simp: parse_config_def)
  then show ?thesis by (auto simp: parse_config_def)
qed

theorem parse_config_raises_what_the_parser_raises_witness:
  "parse_config (table_parser [(''<View/>'', Inr (Node ''View'' [] []))]) (Some ''<View'') =
     Inl (ValueError ''syntax error'') \<and>
   parse_config (table_parser [(''<View/>'', Inr (Node ''View'' [] []))]) (Some ''<View/>'') =
     Inr ([], []) \<and>
   parse_config (table_parser [(''<View/>'', Inl (OtherException IndexError))])
     (Some ''<View/>'') = Inl IndexError"
  using parse_config_raises_what_the_parser_raises
          [of "table_parser [(''<View/>'', Inr (Node ''View'' [] []))]"]
        parse_config_raises_what_the_parser_raises
          [of "table_parser [(''<View/>'', Inl (OtherException IndexError))]"]
  by (simp add: parse_config_def table_parser_def parse_tree_def first_loop_def
        initial_state_def visit_tag_def classify_def is_output_tag_def is_input_tag_def
        truthy_def attrib_get_def LABEL_TAGS_def)

text \<open>
  Claim C8, as stated, fails: an attribute that is present and empty does not count. The
  element \<open><Choices name="" toName="t"/>\<close> has both attributes and is not a \<open>Filter\<close>, and
  it is not an output tag.
\<close>

theorem empty_name_counterexample:
  "attrib_get (Node ''Choices'' [(''name'', ''''), (''toName'', ''t'')] []) ''name'' = Some [] \<and>
   attrib_get (Node ''Choices'' [(''name'', ''''), (''toName'', ''t'')] []) ''toName'' = Some ''t'' \<and>
   tag (Node ''Choices'' [(''name'', ''''), (''toName'', ''t'')] []) \<notin> NOT_CONTROL_TAGS \<and>
   \<not> is_output_tag (Node ''Choices'' [(''name'', ''''), (''toName'', ''t'')] []) \<and>
   parse_tree (Node ''Choices'' [(''name'', ''''), (''toName'', ''t'')] []) = Inr ([], [])"
  by (simp add: parse_eval)

text \<open>
  Claim C8, amended. The visit of an element records it in \<open>outputs\<close>, with its tag and
  the comma-split of its \<open>toName\<close>, when its \<open>name\<close> and \<open>toName\<close> attributes are both
  present and not empty and its tag is not \<open>Filter\<close>, and leaves \<open>outputs\<close> as it was
  otherwise. The keys of the returned dict are the names of the elements of the first
  kind, and the type and the \<open>to_name\<close> of each entry are those of such an element, so
  that no entry comes from a \<open>Filter\<close> tag.
\<close>

theorem output_tags_of_schema:
  "\<exists>schema lg. parse_tree t = Inr (schema, lg) \<and>
     (\<forall>s m. \<exists>s'. classify m s = Inr s' \<and>
        (if \<exists>k tn. attrib_get m ''name'' = Some k \<and> k \<noteq> [] \<and>
              attrib_get m ''toName'' = Some tn \<and> tn \<noteq> [] \<and> tag m \<noteq> ''Filter''
         then \<exists>k tn c. attrib_get m ''name'' = Some k \<and> attrib_get m ''toName'' = Some tn \<and>
                map_of (outputs s') k =
                  Some \<lparr>tag_type = tag m, to_name = str_split CHR '','' tn, conditionals = c\<rparr>
         else outputs s' = outputs s)) \<and>
     (\<forall>k. k \<in> set (map fst schema) \<longleftrightarrow>
        (\<exists>m\<in>set (elements t). \<exists>tn. attrib_get m ''name'' = Some k \<and> k \<noteq> [] \<and>
            attrib_get m ''toName'' = Some tn \<and> tn \<noteq> [] \<and> tag m \<noteq> ''Filter'')) \<and>
     (\<forall>(k, info)\<in>set schema.
        \<exists>m\<in>set (elements t). \<exists>tn. attrib_get m ''name'' = Some k \<and> k \<noteq> [] \<and>
            attrib_get m ''toName'' = Some tn \<and> tn \<noteq> [] \<and> tag m \<noteq> ''Filter'' \<and>
            tag_type info = tag m \<and> to_name info = str_split CHR '','' tn)"
proof -
  from parse_tree_result[of t] obtain st where
    st: "first_loop t = Inr st"
        "parse_tree t = Inr (map (completed st) (outputs st),
                             log st @ concat (map (not_found st) (outputs st)))"
    by blast
  let ?schema = "map (completed st) (outputs st)"
  have keys: "\<forall>k. k \<in> set (map fst ?schema) \<longleftrightarrow>
        (\<exists>m\<in>set (elements t). \<exists>tn. attrib_get m ''name'' = Some k \<and> k \<noteq> [] \<and>
            attrib_get m ''toName'' = Some tn \<and> tn \<noteq> [] \<and> tag m \<noteq> ''Filter'')"
    unfolding keys_completed first_loop_keys(1)[OF st(1)] is_output_tag_iff by auto
  have ent: "\<exists>m\<in>set (elements t). \<exists>tn. attrib_get m ''name'' = Some k \<and> k \<noteq> [] \<and>
            attrib_get m ''toName'' = Some tn \<and> tn \<noteq> [] \<and> tag m \<noteq> ''Filter'' \<and>
            tag_type info = tag m \<and> to_name info = str_split CHR '','' tn"
    if "(k, info) \<in> set ?schema" for k info
  proof -
    from schema_entry[OF that] obtain oi where
      o: "(k, oi) \<in> set (outputs st)" "tag_type info = tag_type oi" "to_name info = to_name oi"
      by blast
    from first_loop_outputs_from[OF st(1) o(1)] obtain m tn c where
      m: "m \<in> set (elements t)" "is_output_tag m" "attrib_get m ''name'' = Some k"
         "attrib_get m ''toName'' = Some tn"
         "oi = \<lparr>tag_type = tag m, to_name = str_split CHR '','' tn, conditionals = c\<rparr>"
      by blast
    from m(2,3,4) have "k \<noteq> []" "tn \<noteq> []" "tag m \<noteq> ''Filter''"
      by (auto simp: is_output_tag_iff)
    then show ?thesis using m o(2,3) by auto
  qed
  have all: "\<forall>(k, info)\<in>set ?schema.
        \<exists>m\<in>set (elements t). \<exists>tn. attrib_get m ''name'' = Some k \<and> k \<noteq> [] \<and>
            attrib_get m ''toName'' = Some tn \<and> tn \<noteq> [] \<and> tag m \<noteq> ''Filter'' \<and>
            tag_type info = tag m \<and> to_name info = str_split CHR '','' tn"
  proof (intro ballI)
    fix e assume "e \<in> set ?schema"
    then show "case e of (k, info) \<Rightarrow>
        \<exists>m\<in>set (elements t). \<exists>tn. attrib_get m ''name'' = Some k \<and> k \<noteq> [] \<and>
            attrib_get m ''toName'' = Some tn \<and> tn \<noteq> [] \<and> tag m \<noteq> ''Filter'' \<and>
            tag_type info = tag m \<and> to_name info = str_split CHR '','' tn"
      using ent[of "fst e" "snd e"] by (simp add: case_prod_beta)
  qed
  have node: "\<forall>s m. \<exists>s'. classify m s = Inr s' \<and>
        (if \<exists>k tn. attrib_get m ''name'' = Some k \<and> k \<noteq> [] \<and>
              attrib_get m ''toName'' = Some tn \<and> tn \<noteq> [] \<and> tag m \<noteq> ''Filter''
         then \<exists>k tn c. attrib_get m ''name'' = Some k \<and> attrib_get m ''toName'' = Some tn \<and>
                map_of (outputs s') k =
                  Some \<lparr>tag_type = tag m, to_name = str_split CHR '','' tn, conditionals = c\<rparr>
         else outputs s' = outputs s)"
  proof (intro allI)
    fix s m
    show "\<exists>s'. classify m s = Inr s' \<and>
        (if \<exists>k tn. attrib_get m ''name'' = Some k \<and> k \<noteq> [] \<and>
              attrib_get m ''toName'' = Some tn \<and> tn \<noteq> [] \<and> tag m \<noteq> ''Filter''
         then \<exists>k tn c. attrib_get m ''name'' = Some k \<and> attrib_get m ''toName'' = Some tn \<and>
                map_of (outputs s') k =
                  Some \<lparr>tag_type = tag m, to_name = str_split CHR '','' tn, conditionals = c\<rparr>
         else outputs s' = outputs s)"
    proof (cases "is_output_tag m")
      case True
      from classify_output[OF True, of s] obtain k tn c where
        o: "attrib_get m ''name'' = Some k" "attrib_get m ''toName'' = Some tn"
           "classify m s = Inr (s\<lparr>outputs := dict_set (outputs s) k
              \<lparr>tag_type = tag m, to_name = str_split CHR '','' tn, conditionals = c\<rparr>\<rparr>)"
        by blast
      have "map_of (outputs (s\<lparr>outputs := dict_set (outputs s) k
              \<lparr>tag_type = tag m, to_name = str_split CHR '','' tn, conditionals = c\<rparr>\<rparr>)) k =
            Some \<lparr>tag_type = tag m, to_name = str_split CHR '','' tn, conditionals = c\<rparr>"
        by (simp add: map_of_dict_set)
      then show ?thesis using True o unfolding is_output_tag_iff by auto
    next
      case False
      from classify_total[of m s] False obtain s' where
        "classify m s = Inr s'" "outputs s' = outputs s" by blast
      then show ?thesis using False unfolding is_output_tag_iff by auto
    qed
  qed
  show ?thesis
    by (rule exI[of _ ?schema], rule exI[of _ "log st @ concat (map (not_found st) (outputs st))"])
       (use st(2) node keys all in blast)
qed

theorem output_tags_of_schema_witness:
  "parse_tree (Node ''View'' []
      [Node ''Filter'' [(''name'', ''f''), (''toName'', ''c'')] [],
       Node ''Choices'' [(''name'', ''c''), (''toName'', ''a,b'')] []]) =
   Inr ([(''c'', \<lparr>tag_type = ''Choices'', to_name = [''a'', ''b''], conditionals = None,
                  tag_inputs = [], tag_labels = [], labels_attrs = []\<rparr>)],
        [ToNameNotFound ''a'' ''c'', ToNameNotFound ''b'' ''c''])"
  using output_tags_of_schema[of "Node ''View'' []
      [Node ''Filter'' [(''name'', ''f''), (''toName'', ''c'')] [],
       Node ''Choices'' [(''name'', ''c''), (''toName'', ''a,b'')] []]"]
  by (simp add: parse_eval)

text \<open>
  Claim C9. For every output tag of the returned dict, \<open>inputs\<close> holds the descriptors of
  the names of \<open>to_name\<close> that are recorded input tags, one for each such entry and in the
  order of \<open>to_name\<close>; an entry that is not one is skipped, with a diagnostic in the log,
  and the parse succeeds. The example is an output tag \<open>T\<close> with \<open>toName="A,B"\<close> where
  only \<open>A\<close> is an input tag.
\<close>

theorem inputs_follow_to_name:
  "\<exists>st schema lg. first_loop t = Inr st \<and> parse_tree t = Inr (schema, lg) \<and>
     (\<forall>(k, info)\<in>set schema.
        tag_inputs info = lookups (inputs st) (to_name info) \<and>
        length (tag_inputs info) =
          length (filter (\<lambda>n. n \<in> set (map fst (inputs st))) (to_name info)) \<and>
        (\<forall>n\<in>set (to_name info).
           n \<notin> set (map fst (inputs st)) \<longrightarrow> ToNameNotFound n k \<in> set lg))"
proof -
  from parse_tree_result[of t] obtain st where
    st: "first_loop t = Inr st"
        "parse_tree t = Inr (map (completed st) (outputs st),
                             log st @ concat (map (not_found st) (outputs st)))"
    by blast
  let ?schema = "map (completed st) (outputs st)"
  let ?lg = "log st @ concat (map (not_found st) (outputs st))"
  have all: "\<forall>(k, info)\<in>set ?schema.
        tag_inputs info = lookups (inputs st) (to_name info) \<and>
        length (tag_inputs info) =
          length (filter (\<lambda>n. n \<in> set (map fst (inputs st))) (to_name info)) \<and>
        (\<forall>n\<in>set (to_name info).
           n \<notin> set (map fst (inputs st)) \<longrightarrow> ToNameNotFound n k \<in> set ?lg)"
  proof (intro ballI)
    fix e assume e: "e \<in> set ?schema"
    obtain k info where ki: "e = (k, info)" by (cases e)
    from schema_entry[of k info st "outputs st"] e ki obtain oi where
      o: "(k, oi) \<in> set (outputs st)" "to_name info = to_name oi"
         "tag_inputs info = lookups (inputs st) (to_name oi)"
      by blast
    have a: "tag_inputs info = lookups (inputs st) (to_name info)" using o by simp
    have b: "length (tag_inputs info) =
          length (filter (\<lambda>n. n \<in> set (map fst (inputs st))) (to_name info))"
      unfolding a by (rule length_lookups)
    have c: "ToNameNotFound n k \<in> set ?lg"
      if "n \<in> set (to_name info)" "n \<notin> set (map fst (inputs st))" for n
    proof -
      have "ToNameNotFound n k \<in> set (not_found st (k, oi))"
        using that o(2) by (simp add: not_found_def)
      then have "ToNameNotFound n k \<in> set (concat (map (not_found st) (outputs st)))"
        using o(1) by auto
      then show ?thesis by simp
    qed
    show "case e of (k, info) \<Rightarrow>
        tag_inputs info = lookups (inputs st) (to_name info) \<and>
        length (tag_inputs info) =
          length (filter (\<lambda>n. n \<in> set (map fst (inputs st))) (to_name info)) \<and>
        (\<forall>n\<in>set (to_name info).
           n \<notin> set (map fst (inputs st)) \<longrightarrow> ToNameNotFound n k \<in> set ?lg)"
      unfolding ki using a b c by simp
  qed
  show ?thesis
    by (rule exI[of _ st], rule exI[of _ ?schema], rule exI[of _ ?lg])
       (use st all in blast)
qed

theorem inputs_follow_to_name_witness:
  "parse_tree (Node ''View'' []
      [Node ''Text'' [(''name'', ''A''), (''value'', ''$text'')] [],
       Node ''Choices'' [(''name'', ''T''), (''toName'', ''A,B'')] []]) =
   Inr ([(''T'', \<lparr>tag_type = ''Choices'', to_name = [''A'', ''B''], conditionals = None,
                  tag_inputs = [\<lparr>input_type = ''Text'', input_value = ''text''\<rparr>],
                  tag_labels = [], labels_attrs = []\<rparr>)],
        [ToNameNotFound ''B'' ''T''])"
  using inputs_follow_to_name[of "Node ''View'' []
      [Node ''Text'' [(''name'', ''A''), (''value'', ''$text'')] [],
       Node ''Choices'' [(''name'', ''T''), (''toName'', ''A,B'')] []]"]
  by (simp add: parse_eval)

text \<open>
  Claim C10, as stated, fails: the name of an element that is both an output and an
  input tag does resolve to an input descriptor when another element of the same name is
  an input tag only. Here \<open>y\<close> points to \<open>x\<close>, the name of a \<open>Text\<close> input tag and of a
  \<open>Choices\<close> tag that satisfies both conditions.
\<close>

theorem same_name_counterexample:
  "is_output_tag (Node ''Choices'' [(''name'', ''x''), (''toName'', ''q''), (''value'', ''v'')] []) \<and>
   is_input_tag (Node ''Choices'' [(''name'', ''x''), (''toName'', ''q''), (''value'', ''v'')] []) \<and>
   parse_tree (Node ''View'' []
      [Node ''Text'' [(''name'', ''x''), (''value'', ''$t'')] [],
       Node ''Choices'' [(''name'', ''x''), (''toName'', ''q''), (''value'', ''v'')] [],
       Node ''TextArea'' [(''name'', ''y''), (''toName'', ''x'')] []]) =
   Inr ([(''x'', \<lparr>tag_type = ''Choices'', to_name = [''q''], conditionals = None,
                  tag_inputs = [], tag_labels = [], labels_attrs = []\<rparr>),
         (''y'', \<lparr>tag_type = ''TextArea'', to_name = [''x''], conditionals = None,
                  tag_inputs = [\<lparr>input_type = ''Text'', input_value = ''t''\<rparr>],
                  tag_labels = [], labels_attrs = []\<rparr>)],
        [ToNameNotFound ''q'' ''x''])"
  by (simp add: parse_eval)

text \<open>
  Claim C10, amended. The visit of an element that is both an output tag and an input
  tag records it in \<open>outputs\<close> and leaves \<open>inputs\<close> as it was. The keys of \<open>inputs\<close> are the
  names of the elements that are input tags and not output tags. So when every element
  named \<open>k\<close> is an output tag, \<open>k\<close> is no key of \<open>inputs\<close>, and the entries \<open>k\<close> of a
  \<open>to_name\<close> list resolve to no descriptor.
\<close>

theorem output_takes_precedence:
  "\<exists>st schema lg. first_loop t = Inr st \<and> parse_tree t = Inr (schema, lg) \<and>
     (\<forall>s m. is_output_tag m \<and> is_input_tag m \<longrightarrow>
        (\<exists>s' k. classify m s = Inr s' \<and> inputs s' = inputs s \<and>
                attrib_get m ''name'' = Some k \<and> k \<in> set (map fst (outputs s')))) \<and>
     (\<forall>k. k \<in> set (map fst (inputs st)) \<longleftrightarrow>
        (\<exists>m\<in>set (elements t). \<not> is_output_tag m \<and> is_input_tag m \<and>
            attrib_get m ''name'' = Some k)) \<and>
     (\<forall>k. (\<forall>m\<in>set (elements t). attrib_get m ''name'' = Some k \<longrightarrow> is_output_tag m) \<longrightarrow>
        map_of (inputs st) k = None \<and>
        (\<forall>(T, info)\<in>set schema.
           tag_inputs info = lookups (inputs st) (filter (\<lambda>n. n \<noteq> k) (to_name info))))"
proof -
  from parse_tree_result[of t] obtain st where
    st: "first_loop t = Inr st"
        "parse_tree t = Inr (map (completed st) (outputs st),
                             log st @ concat (map (not_found st) (outputs st)))"
    by blast
  let ?schema = "map (completed st) (outputs st)"
  let ?lg = "log st @ concat (map (not_found st) (outputs st))"
  have a: "\<forall>s m. is_output_tag m \<and> is_input_tag m \<longrightarrow>
        (\<exists>s' k. classify m s = Inr s' \<and> inputs s' = inputs s \<and>
                attrib_get m ''name'' = Some k \<and> k \<in> set (map fst (outputs s')))"
  proof (intro allI impI)
    fix s m assume "is_output_tag m \<and> is_input_tag m"
    then have o: "is_output_tag m" by simp
    from classify_output[OF o, of s] obtain k tn c where
      "attrib_get m ''name'' = Some k"
      "classify m s = Inr (s\<lparr>outputs := dict_set (outputs s) k
              \<lparr>tag_type = tag m, to_name = str_split CHR '','' tn, conditionals = c\<rparr>\<rparr>)"
      by blast
    then show "\<exists>s' k. classify m s = Inr s' \<and> inputs s' = inputs s \<and>
                attrib_get m ''name'' = Some k \<and> k \<in> set (map fst (outputs s'))"
      by (auto simp: set_keys_dict_set simp del: set_map)
  qed
  have b: "\<forall>k. k \<in> set (map fst (inputs st)) \<longleftrightarrow>
        (\<exists>m\<in>set (elements t). \<not> is_output_tag m \<and> is_input_tag m \<and>
            attrib_get m ''name'' = Some k)"
    unfolding first_loop_keys(2)[OF st(1)] by simp
  have c: "map_of (inputs st) k = None \<and>
        (\<forall>(T, info)\<in>set ?schema.
           tag_inputs info = lookups (inputs st) (filter (\<lambda>n. n \<noteq> k) (to_name info)))"
    if h: "\<forall>m\<in>set (elements t). attrib_get m ''name'' = Some k \<longrightarrow> is_output_tag m" for k
  proof -
    have "k \<notin> set (map fst (inputs st))" using b h by blast
    then have n: "map_of (inputs st) k = None" by (simp add: map_of_eq_None_iff)
    have "\<forall>(T, info)\<in>set ?schema.
           tag_inputs info = lookups (inputs st) (filter (\<lambda>n. n \<noteq> k) (to_name info))"
    proof (intro ballI)
      fix e assume e: "e \<in> set ?schema"
      obtain T info where ki: "e = (T, info)" by (cases e)
      from schema_entry[of T info st "outputs st"] e ki obtain oi :: output_info where
        "to_name info = to_name oi" "tag_inputs info = lookups (inputs st) (to_name oi)"
        by blast
      then show "case e of (T, info) \<Rightarrow>
           tag_inputs info = lookups (inputs st) (filter (\<lambda>n. n \<noteq> k) (to_name info))"
        unfolding ki using lookups_skip[OF n] by simp
    qed
    then show ?thesis using n by blast
  qed
  show ?thesis
    by (rule exI[of _ st], rule exI[of _ ?schema], rule exI[of _ ?lg])
       (use st a b c in blast)
qed

theorem output_takes_precedence_witness:
  "is_output_tag (Node ''Choices'' [(''name'', ''x''), (''toName'', ''q''), (''value'', ''v'')] []) \<and>
   is_input_tag (Node ''Choices'' [(''name'', ''x''), (''toName'', ''q''), (''value'', ''v'')] []) \<and>
   parse_tree (Node ''View'' []
      [Node ''Choices'' [(''name'', ''x''), (''toName'', ''q''), (''value'', ''v'')] [],
       Node ''TextArea'' [(''name'', ''y''), (''toName'', ''x'')] []]) =
   Inr ([(''x'', \<lparr>tag_type = ''Choices'', to_name = [''q''], conditionals = None,
                  tag_inputs = [], tag_labels = [], labels_attrs = []\<rparr>),
         (''y'', \<lparr>tag_type = ''TextArea'', to_name = [''x''], conditionals = None,
                  tag_inputs = [], tag_labels = [], labels_attrs = []\<rparr>)],
        [ToNameNotFound ''q'' ''x'', ToNameNotFound ''x'' ''y''])"
  using output_takes_precedence[of "Node ''View'' []
      [Node ''Choices'' [(''name'', ''x''), (''toName'', ''q''), (''value'', ''v'')] [],
       Node ''TextArea'' [(''name'', ''y''), (''toName'', ''x'')] []]"]
  by (simp add: parse_eval)

end
